theory Spec2Isabelle
  imports Complex_Main "HOL-Library.Word"
begin

section \<open>Data model of \<^verbatim>\<open>script.js\<close>\<close>

text \<open>
  JavaScript strings are sequences of UTF-16 code units, so the recognised text is a list
  of 16-bit words (U+200B does not fit an 8-bit character). Option names, the language
  and the page-segmentation modes are ASCII literals and stay \<open>string\<close>.
\<close>

type_synonym jschar = "16 word"
type_synonym jsstring = "jschar list"

text \<open>
  A JavaScript number is a double. The numbers of this file are the engine's confidence
  and the segment angles; they are modelled by the real they denote. A confidence that
  is not a truthy number (\<^verbatim>\<open>undefined\<close>, \<^verbatim>\<open>null\<close>, \<^verbatim>\<open>NaN\<close>, \<^verbatim>\<open>0\<close>) is replaced by
  \<^verbatim>\<open>0\<close> at line 316 before it is ever compared, so \<open>None\<close> stands for those.
\<close>

datatype err = TypeError | EngineError nat | CvError nat

text \<open>What \<^verbatim>\<open>Tesseract.recognize\<close> resolves with: \<^verbatim>\<open>res.data.text\<close>, \<^verbatim>\<open>res.data.confidence\<close>.\<close>

record ocr_data =
  data_text :: "jsstring option"
  data_confidence :: "real option"

text \<open>
  The object built at lines 314-320, and the fallback literal of line 329, which has
  neither a \<^verbatim>\<open>variant\<close> nor a \<^verbatim>\<open>psm\<close> property (\<open>None\<close> is \<^verbatim>\<open>undefined\<close>).
\<close>

record attempt =
  ocr_text :: jsstring
  avgConf :: real
  variant :: "int option"
  psm :: "string option"

text \<open>The arguments of one \<^verbatim>\<open>Tesseract.recognize\<close> call (lines 304-313).\<close>

record 'b request =
  img :: 'b
  lang :: string
  load_fast :: bool
  tessedit_pageseg_mode :: string
  tessedit_char_whitelist :: string

text \<open>A task: the request, and what the \<^verbatim>\<open>.then\<close> closure captured (\<^verbatim>\<open>i\<close> and \<^verbatim>\<open>psm\<close>).\<close>

record 'b task =
  req :: "'b request"
  captured_i :: nat
  captured_psm :: string

section \<open>\<^verbatim>\<open>Array.prototype.sort\<close> with a comparator\<close>

text \<open>
  ECMAScript requires \<^verbatim>\<open>sort\<close> to be stable, and for a consistent comparator the stable
  order is unique, so any stable sort computes it; this one is insertion sort. An element
  goes before the first one the comparator does not put it after (\<open>cmp x y \<le> 0\<close>).
\<close>

fun js_insert :: "('a \<Rightarrow> 'a \<Rightarrow> real) \<Rightarrow> 'a \<Rightarrow> 'a list \<Rightarrow> 'a list" where
  "js_insert cmp x [] = [x]"
| "js_insert cmp x (y # ys) = (if cmp x y \<le> 0 then x # y # ys else y # js_insert cmp x ys)"

fun js_sort :: "('a \<Rightarrow> 'a \<Rightarrow> real) \<Rightarrow> 'a list \<Rightarrow> 'a list" where
  "js_sort cmp [] = []"
| "js_sort cmp (x # xs) = js_insert cmp x (js_sort cmp xs)"

section \<open>OCR dispatch (\<^verbatim>\<open>doExtract\<close>, lines 297-326)\<close>

definition psms :: "string list" where
  "psms = [''6'', ''3'', ''4'', ''11'']"

definition whitelist :: string where
  "whitelist = ''ABCDEFGHIJKLMNOPQRSTUVWXYZabcdefghijklmnopqrstuvwxyz0123456789.,:-()/%&$ ''"

definition mk_task :: "'b \<Rightarrow> nat \<Rightarrow> string \<Rightarrow> 'b task" where
  "mk_task vb i p =
     \<lparr>req = \<lparr>img = vb, lang = ''eng'', load_fast = False,
              tessedit_pageseg_mode = p, tessedit_char_whitelist = whitelist\<rparr>,
      captured_i = i, captured_psm = p\<rparr>"

text \<open>\<^verbatim>\<open>for (const psm of psms) ocrTasks.push(...)\<close>\<close>

fun psm_loop :: "'b \<Rightarrow> nat \<Rightarrow> string list \<Rightarrow> 'b task list \<Rightarrow> 'b task list" where
  "psm_loop vb i [] ocrTasks = ocrTasks"
| "psm_loop vb i (p # ps) ocrTasks = psm_loop vb i ps (ocrTasks @ [mk_task vb i p])"

text \<open>\<^verbatim>\<open>for (let i = 0; i < variants.length; i++)\<close>\<close>

function variant_loop :: "'b list \<Rightarrow> nat \<Rightarrow> 'b task list \<Rightarrow> 'b task list" where
  "variant_loop variants i ocrTasks =
     (if i < length variants
      then variant_loop variants (Suc i) (psm_loop (variants ! i) i psms ocrTasks)
      else ocrTasks)"
  by pat_completeness auto
termination
  by (relation "measure (\<lambda>(variants, i, ocrTasks). length variants - i)") auto

declare variant_loop.simps [simp del]

definition build_tasks :: "'b list \<Rightarrow> 'b task list" where
  "build_tasks variants = variant_loop variants 0 []"

text \<open>The \<^verbatim>\<open>.then\<close> callback of lines 314-320; a rejection passes through it.\<close>

definition on_fulfilled :: "'b task \<Rightarrow> ocr_data \<Rightarrow> attempt" where
  "on_fulfilled t d =
     \<lparr>ocr_text = (case data_text d of None \<Rightarrow> [] | Some s \<Rightarrow> s),
      avgConf = (case data_confidence d of None \<Rightarrow> 0 | Some c \<Rightarrow> c),
      variant = Some (int (captured_i t) + 1),
      psm = Some (captured_psm t)\<rparr>"

definition settle :: "'b task \<Rightarrow> err + ocr_data \<Rightarrow> err + attempt" where
  "settle t r = (case r of Inl e \<Rightarrow> Inl e | Inr d \<Rightarrow> Inr (on_fulfilled t d))"

subsection \<open>\<^verbatim>\<open>Promise.all\<close>\<close>

text \<open>
  The promises settle one at a time, in some completion order. \<^verbatim>\<open>Promise.all\<close> stores a
  fulfilled value in the slot of its promise, rejects with the first rejection it sees,
  and fulfils with the slots once all of them are filled. Until then it is pending.
\<close>

datatype 'a promise = Pending | Fulfilled 'a | Rejected err

fun all_events :: "(nat \<times> (err + 'a)) list \<Rightarrow> 'a option list \<Rightarrow> err + 'a option list" where
  "all_events [] slots = Inr slots"
| "all_events ((k, Inl e) # evs) slots = Inl e"
| "all_events ((k, Inr v) # evs) slots = all_events evs (slots[k := Some v])"

text \<open>
  \<open>outcomes\<close> is how each promise of the array settles, \<open>order\<close> the order in which
  they do (an index outside the array names no promise).
\<close>

definition Promise_all :: "(err + 'a) list \<Rightarrow> nat list \<Rightarrow> 'a list promise" where
  "Promise_all outcomes order =
     (case all_events (map (\<lambda>k. (k, outcomes ! k)) (filter (\<lambda>k. k < length outcomes) order))
                      (replicate (length outcomes) None) of
        Inl e \<Rightarrow> Rejected e
      | Inr slots \<Rightarrow> (case those slots of None \<Rightarrow> Pending | Some vs \<Rightarrow> Fulfilled vs))"

text \<open>
  Lines 297-326: the tasks are built, each settles as the engine decides, and the run
  awaits \<^verbatim>\<open>Promise.all(ocrTasks)\<close>.
\<close>

definition dispatch :: "'b list \<Rightarrow> (nat \<Rightarrow> err + ocr_data) \<Rightarrow> nat list \<Rightarrow> attempt list promise" where
  "dispatch variants eng ord =
     (let ocrTasks = build_tasks variants;
          outcomes = map (\<lambda>k. settle (ocrTasks ! k) (eng k)) [0..<length ocrTasks]
      in Promise_all outcomes ord)"

section \<open>Result selection (lines 328-329)\<close>

definition by_confidence :: "attempt \<Rightarrow> attempt \<Rightarrow> real" where
  "by_confidence a b = avgConf b - avgConf a"

definition default_best :: attempt where
  "default_best = \<lparr>ocr_text = [], avgConf = 0, variant = None, psm = None\<rparr>"

definition select_best :: "attempt list \<Rightarrow> attempt" where
  "select_best results =
     (case js_sort by_confidence results of [] \<Rightarrow> default_best | r # _ \<Rightarrow> r)"

section \<open>Text normalisation (\<^verbatim>\<open>cleanText\<close>, lines 270-278)\<close>

definition TAB :: jschar where "TAB = 0x09"
definition LF :: jschar where "LF = 0x0A"
definition CR :: jschar where "CR = 0x0D"
definition SP :: jschar where "SP = 0x20"
definition ZWSP :: jschar where "ZWSP = 0x200B"

text \<open>
  The class \<^verbatim>\<open>\s\<close> of a regular expression and the characters \<^verbatim>\<open>trim\<close> removes are the
  same set: ECMAScript's WhiteSpace and LineTerminator code points.
\<close>

definition js_space :: "jschar \<Rightarrow> bool" where
  "js_space c \<longleftrightarrow>
     c = 0x09 \<or> c = 0x0A \<or> c = 0x0B \<or> c = 0x0C \<or> c = 0x0D \<or> c = 0x20 \<or> c = 0xA0 \<or>
     c = 0x1680 \<or> (0x2000 \<le> c \<and> c \<le> 0x200A) \<or> c = 0x2028 \<or> c = 0x2029 \<or>
     c = 0x202F \<or> c = 0x205F \<or> c = 0x3000 \<or> c = 0xFEFF"

text \<open>\<^verbatim>\<open>[^\S\r\n]\<close>: not a non-space, not CR, not LF.\<close>

definition hspace :: "jschar \<Rightarrow> bool" where
  "hspace c \<longleftrightarrow> js_space c \<and> c \<noteq> CR \<and> c \<noteq> LF"

text \<open>\<^verbatim>\<open>[ \t]\<close>\<close>

definition sp_tab :: "jschar \<Rightarrow> bool" where
  "sp_tab c \<longleftrightarrow> c = SP \<or> c = TAB"

text \<open>
  \<^verbatim>\<open>s.replace(re, rep)\<close> with the \<^verbatim>\<open>g\<close> flag and a literal replacement. \<open>m\<close> is the
  regular expression as a matcher: on the rest of the input at some position it gives the
  length of the match that starts there, or \<open>None\<close>. The scan goes left to right, puts
  \<open>rep\<close> for a match and resumes after it, and copies the character where nothing
  matches. Every expression of \<^verbatim>\<open>cleanText\<close> matches one character at least, so after a
  match of length \<open>n\<close> at \<open>c # cs\<close> the input left is \<open>drop (n - 1) cs\<close>.
\<close>

function replace_g :: "(jsstring \<Rightarrow> nat option) \<Rightarrow> jsstring \<Rightarrow> jsstring \<Rightarrow> jsstring" where
  "replace_g m rep [] = []"
| "replace_g m rep (c # cs) =
     (case m (c # cs) of
        None \<Rightarrow> c # replace_g m rep cs
      | Some n \<Rightarrow> rep @ replace_g m rep (drop (n - 1) cs))"
  by pat_completeness auto
termination
  by (relation "measure (\<lambda>(m, rep, s). length s)") auto

text \<open>\<^verbatim>\<open>/\u200B/\<close>\<close>

definition re_zwsp :: "jsstring \<Rightarrow> nat option" where
  "re_zwsp s = (case s of [] \<Rightarrow> None | c # _ \<Rightarrow> if c = ZWSP then Some 1 else None)"

text \<open>\<^verbatim>\<open>/[^\S\r\n]+/\<close>: the quantifier is greedy, the match is the whole run.\<close>

definition re_hspace_run :: "jsstring \<Rightarrow> nat option" where
  "re_hspace_run s =
     (let n = length (takeWhile hspace s) in if 1 \<le> n then Some n else None)"

text \<open>
  \<^verbatim>\<open>/[ \t]+\n/\<close>: the run of blanks, then a line feed. Backtracking to a shorter run
  cannot help: the character after a shorter run is a blank.
\<close>

definition re_blanks_lf :: "jsstring \<Rightarrow> nat option" where
  "re_blanks_lf s =
     (let n = length (takeWhile sp_tab s) in
      if 1 \<le> n \<and> take 1 (drop n s) = [LF] then Some (n + 1) else None)"

text \<open>\<^verbatim>\<open>/\n{3,}/\<close>\<close>

definition re_lf3 :: "jsstring \<Rightarrow> nat option" where
  "re_lf3 s =
     (let n = length (takeWhile (\<lambda>c. c = LF) s) in if 3 \<le> n then Some n else None)"

text \<open>\<^verbatim>\<open>String.prototype.trim\<close>\<close>

definition trim :: "jsstring \<Rightarrow> jsstring" where
  "trim s = rev (dropWhile js_space (rev (dropWhile js_space s)))"

text \<open>\<^verbatim>\<open>s.split('\n')\<close>: the empty string gives one empty line.\<close>

fun split_lf :: "jsstring \<Rightarrow> jsstring list" where
  "split_lf [] = [[]]"
| "split_lf (c # cs) =
     (if c = LF then [] # split_lf cs
      else (case split_lf cs of [] \<Rightarrow> [[c]] | l # ls \<Rightarrow> (c # l) # ls))"

text \<open>\<^verbatim>\<open>lines.join('\n')\<close>\<close>

fun join_lf :: "jsstring list \<Rightarrow> jsstring" where
  "join_lf [] = []"
| "join_lf [l] = l"
| "join_lf (l # ls) = l @ LF # join_lf ls"

definition strip_zwsp :: "jsstring \<Rightarrow> jsstring" where
  "strip_zwsp s = replace_g re_zwsp [] s"

definition collapse_hspace :: "jsstring \<Rightarrow> jsstring" where
  "collapse_hspace s = replace_g re_hspace_run [SP] s"

definition strip_blanks_lf :: "jsstring \<Rightarrow> jsstring" where
  "strip_blanks_lf s = replace_g re_blanks_lf [LF] s"

definition collapse_lf :: "jsstring \<Rightarrow> jsstring" where
  "collapse_lf s = replace_g re_lf3 [LF, LF] s"

definition trim_lines :: "jsstring \<Rightarrow> jsstring" where
  "trim_lines s = join_lf (map trim (split_lf s))"

text \<open>\<^verbatim>\<open>if (!s) return s;\<close> the empty string is falsy.\<close>

definition cleanText :: "jsstring \<Rightarrow> jsstring" where
  "cleanText s =
     (if s = [] then s
      else trim (trim_lines (collapse_lf (strip_blanks_lf (collapse_hspace (strip_zwsp s))))))"

section \<open>The extraction run (\<^verbatim>\<open>doExtract\<close>, lines 281-367)\<close>

text \<open>
  What one run meets outside the function: what \<^verbatim>\<open>createProcessedVariants\<close> returns (the
  list of \<^verbatim>\<open>{blob, mat}\<close>) or throws, how the engine settles the request of each task, in
  which order the requests settle, and the two check boxes read after the dispatch. The
  one write of \<^verbatim>\<open>createProcessedVariants\<close> to the page is line 261, which shows the first
  variant as soon as it is drawn; an exception comes with whether that line had run.
\<close>

record 'b run_input =
  created :: "err \<times> bool + 'b list"
  engine :: "nat \<Rightarrow> err + ocr_data"
  order :: "nat list"
  optNormalize :: bool
  optShowAll :: bool

datatype status = Idle | Preparing | RunningOCR nat | Done | Error

datatype alert_msg = NotReadyAlert | ChooseImageAlert | ProcessingErrorAlert err

text \<open>
  The page elements the run writes. \<open>confBadge\<close> is \<open>None\<close> for the dash and otherwise
  the number the badge shows, \<open>previewImg\<close> the index of the variant whose matrix is shown
  (\<open>None\<close> for the empty source), \<open>variantsRow\<close> the number of thumbnails (\<open>None\<close> while
  the row is hidden), \<open>alerts\<close> the alert boxes raised, latest first.
\<close>

record page =
  statusEl :: status
  resultArea :: jsstring
  confBadge :: "real option"
  previewImg :: "nat option"
  variantsRow :: "nat option"
  alerts :: "alert_msg list"

text \<open>
  \<^verbatim>\<open>variants[Math.max(0, best.variant - 1)].mat\<close> (lines 348 and 352). Without a
  \<^verbatim>\<open>variant\<close> property the index is \<^verbatim>\<open>NaN\<close>; reading \<^verbatim>\<open>.mat\<close> of an element that does not
  exist throws a TypeError.
\<close>

definition lookup_best :: "'b list \<Rightarrow> attempt \<Rightarrow> err + nat" where
  "lookup_best variants best =
     (case variant best of
        None \<Rightarrow> Inl TypeError
      | Some v \<Rightarrow>
          (let idx = max 0 (v - 1)
           in if idx < int (length variants) then Inr (nat idx) else Inl TypeError))"

text \<open>
  \<^verbatim>\<open>x.toFixed(1)\<close>, read back as a number: the multiple of one tenth nearest to \<open>x\<close>, the
  one farther from zero when two are equally near.
\<close>

definition toFixed1 :: "real \<Rightarrow> real" where
  "toFixed1 x =
     (if x < 0 then - (real_of_int \<lfloor>- x * 10 + 1 / 2\<rfloor> / 10)
      else real_of_int \<lfloor>x * 10 + 1 / 2\<rfloor> / 10)"

text \<open>The \<^verbatim>\<open>catch\<close> block of lines 361-366.\<close>

definition on_error :: "err \<Rightarrow> page \<Rightarrow> page" where
  "on_error e pg = pg\<lparr>alerts := ProcessingErrorAlert e # alerts pg, statusEl := Error\<rparr>"

definition doExtract :: "bool \<Rightarrow> 'b run_input \<Rightarrow> page \<Rightarrow> page" where
  "doExtract cvReady inp pg =
     (if \<not> cvReady then pg\<lparr>alerts := NotReadyAlert # alerts pg\<rparr>
      else
        let pg1 = pg\<lparr>statusEl := Preparing, confBadge := None, resultArea := [],
                     previewImg := None, variantsRow := None\<rparr>
        in case created inp of
             Inl (e, shown) \<Rightarrow>
               on_error e (pg1\<lparr>previewImg := (if shown then Some 0 else None)\<rparr>)
           | Inr variants \<Rightarrow>
               (let pg2 = pg1\<lparr>previewImg := (if variants = [] then None else Some 0),
                              statusEl := RunningOCR (length variants)\<rparr>
                in case dispatch variants (engine inp) (order inp) of
                     Pending \<Rightarrow> pg2
                   | Rejected e \<Rightarrow> on_error e pg2
                   | Fulfilled results \<Rightarrow>
                       (let best = select_best results;
                            out = ocr_text best;
                            out = (if optNormalize inp then cleanText out else out);
                            pg3 = pg2\<lparr>resultArea := out,
                                      confBadge := (if avgConf best \<noteq> 0
                                                    then Some (toFixed1 (avgConf best))
                                                    else None)\<rparr>;
                            pg4 = (if optShowAll inp
                                   then pg3\<lparr>variantsRow := Some (length variants)\<rparr>
                                   else pg3)
                        in case lookup_best variants best of
                             Inl e \<Rightarrow> on_error e pg4
                           | Inr k \<Rightarrow> pg4\<lparr>previewImg := Some k, statusEl := Done\<rparr>)))"

section \<open>Readiness (lines 34-81 and 122-130)\<close>

record 'f globals =
  cvReady :: bool
  tessReady :: bool
  lastFile :: "'f option"
  btnExtract_disabled :: bool
  btnReprocess_disabled :: bool

definition updateReady :: "'f globals \<Rightarrow> 'f globals" where
  "updateReady g =
     g\<lparr>btnExtract_disabled := \<not> (cvReady g \<and> tessReady g),
       btnReprocess_disabled := \<not> (cvReady g \<and> tessReady g)\<rparr>"

text \<open>The callback \<^verbatim>\<open>cv['onRuntimeInitialized']\<close> of lines 53-58 and 62-67.\<close>

definition onRuntimeInitialized :: "'f globals \<Rightarrow> 'f globals" where
  "onRuntimeInitialized g = updateReady (g\<lparr>cvReady := True\<rparr>)"

definition initTesseract :: "'f globals \<Rightarrow> 'f globals" where
  "initTesseract g = updateReady (g\<lparr>tessReady := True\<rparr>)"

text \<open>
  The state when the script has run to its end: the globals of lines 34-36, then
  \<^verbatim>\<open>initTesseract()\<close> of line 81. The library callback can only run later. The two
  arguments are the \<^verbatim>\<open>disabled\<close> attributes the markup gives the buttons.
\<close>

definition script_loaded :: "bool \<Rightarrow> bool \<Rightarrow> 'f globals" where
  "script_loaded d1 d2 =
     initTesseract \<lparr>cvReady = False, tessReady = False, lastFile = None,
                    btnExtract_disabled = d1, btnReprocess_disabled = d2\<rparr>"

datatype 'f event = RuntimeInitialized | FileChange "'f option" | ClickClear
  | ClickExtract | ClickReprocess

text \<open>What an event does to the globals; a run started by a click changes none of them.\<close>

fun step :: "'f globals \<Rightarrow> 'f event \<Rightarrow> 'f globals" where
  "step g RuntimeInitialized = onRuntimeInitialized g"
| "step g (FileChange f) = g\<lparr>lastFile := f\<rparr>"
| "step g ClickClear = g\<lparr>lastFile := None\<rparr>"
| "step g ClickExtract = g"
| "step g ClickReprocess = g"

definition after_events :: "bool \<Rightarrow> bool \<Rightarrow> 'f event list \<Rightarrow> 'f globals" where
  "after_events d1 d2 evs = foldl step (script_loaded d1 d2) evs"

text \<open>
  A click on a button (lines 122-130). A disabled button dispatches no click event;
  otherwise the handler asks for a file or calls \<^verbatim>\<open>doExtract\<close>.
\<close>

definition click :: "bool \<Rightarrow> 'f globals \<Rightarrow> 'b run_input \<Rightarrow> page \<Rightarrow> page" where
  "click disabled g inp pg =
     (if disabled then pg
      else case lastFile g of
             None \<Rightarrow> pg\<lparr>alerts := ChooseImageAlert # alerts pg\<rparr>
           | Some f \<Rightarrow> doExtract (cvReady g) inp pg)"

definition click_extract :: "'f globals \<Rightarrow> 'b run_input \<Rightarrow> page \<Rightarrow> page" where
  "click_extract g = click (btnExtract_disabled g) g"

definition click_reprocess :: "'f globals \<Rightarrow> 'b run_input \<Rightarrow> page \<Rightarrow> page" where
  "click_reprocess g = click (btnReprocess_disabled g) g"

section \<open>Skew estimation (\<^verbatim>\<open>computeSkewAngle\<close>, lines 150-171)\<close>

text \<open>
  \<^verbatim>\<open>Math.atan2(y, x)\<close> on the reals (the rounding of the doubles is not modelled). The
  arguments are differences of 32-bit integers, so no zero has a sign and
  \<^verbatim>\<open>atan2(0, 0)\<close> is \<^verbatim>\<open>0\<close>.
\<close>

definition atan2 :: "real \<Rightarrow> real \<Rightarrow> real" where
  "atan2 y x =
     (if 0 < x then arctan (y / x)
      else if x < 0 then (if 0 \<le> y then arctan (y / x) + pi else arctan (y / x) - pi)
      else if 0 < y then pi / 2
      else if y < 0 then - pi / 2
      else 0)"

text \<open>A row of \<^verbatim>\<open>lines.data32S\<close>: \<open>(x1, y1, x2, y2)\<close>.\<close>

type_synonym segment = "int \<times> int \<times> int \<times> int"

definition segment_angle :: "segment \<Rightarrow> real" where
  "segment_angle l =
     (case l of (x1, y1, x2, y2) \<Rightarrow> atan2 (real_of_int (y2 - y1)) (real_of_int (x2 - x1)) * 180 / pi)"

text \<open>The loop of lines 157-162.\<close>

fun collect_angles :: "segment list \<Rightarrow> real list \<Rightarrow> real list" where
  "collect_angles [] angles = angles"
| "collect_angles (l # ls) angles =
     (let angle = segment_angle l
      in collect_angles ls (if \<bar>angle\<bar> < 45 then angles @ [angle] else angles))"

definition ascending :: "real \<Rightarrow> real \<Rightarrow> real" where
  "ascending a b = a - b"

text \<open>
  The argument is what edge and line detection (\<^verbatim>\<open>cv.Canny\<close>, \<^verbatim>\<open>cv.HoughLinesP\<close>) give for
  the image: the segments, or the exception thrown.
\<close>

definition computeSkewAngle :: "err + segment list \<Rightarrow> real" where
  "computeSkewAngle detected =
     (case detected of
        Inl e \<Rightarrow> 0
      | Inr ls \<Rightarrow>
          (let angles = collect_angles ls []
           in if length angles = 0 then 0
              else js_sort ascending angles ! (length angles div 2)))"

section \<open>Auxiliary definitions for the statements\<close>

text \<open>
  The task at position \<open>k\<close> of \<^verbatim>\<open>ocrTasks\<close> in closed form (proved below to be what the two
  loops build): variant \<open>k div 4\<close>, mode \<open>k mod 4\<close>.
\<close>

definition task_at :: "'b list \<Rightarrow> nat \<Rightarrow> 'b task" where
  "task_at vs k = mk_task (vs ! (k div 4)) (k div 4) (psms ! (k mod 4))"

text \<open>No three line feeds in a row: \<^verbatim>\<open>/\n{3,}/\<close> matches nowhere.\<close>

fun nl3_free :: "jsstring \<Rightarrow> bool" where
  "nl3_free [] = True"
| "nl3_free (c # cs) =
     (\<not> (c = LF \<and> 2 \<le> length (takeWhile (\<lambda>x. x = LF) cs)) \<and> nl3_free cs)"

text \<open>
  The normal form of a text: no zero-width space, no whitespace but spaces and line feeds,
  no two spaces in a row, no space next to a line feed, no three line feeds in a row, no
  whitespace at either end.
\<close>

definition plain_blanks :: "jsstring \<Rightarrow> bool" where
  "plain_blanks s \<longleftrightarrow> (\<forall>c\<in>set s. c \<noteq> ZWSP \<and> (js_space c \<longrightarrow> c = SP \<or> c = LF))"

definition tidy_pair :: "jschar \<Rightarrow> jschar \<Rightarrow> bool" where
  "tidy_pair x y \<longleftrightarrow> \<not> (x = SP \<and> y = SP) \<and> \<not> (x = SP \<and> y = LF) \<and> \<not> (x = LF \<and> y = SP)"

definition normal_form :: "jsstring \<Rightarrow> bool" where
  "normal_form s \<longleftrightarrow>
     plain_blanks s \<and> successively tidy_pair s \<and> nl3_free s \<and>
     (s = [] \<or> (\<not> js_space (hd s) \<and> \<not> js_space (last s)))"

subsection \<open>The layout the specification describes\<close>

text \<open>
  The specification describes the result by what is left of the whitespace. Here its
  sentence is read on the text as a sequence of words (the maximal runs of characters that
  are not whitespace) and line breaks:

    \<^item> the zero-width spaces go first, so that the words on either side of one are one
      word ("strips zero-width space characters");
    \<^item> the words of a line stand one space apart ("collapses each run of non-newline
      whitespace to a single space");
    \<^item> nothing stands between a word and the line break after it, nor between a line
      break and the word after it ("strips trailing horizontal whitespace before each
      newline", "trims each line");
    \<^item> three or more line breaks with nothing but whitespace between them count as two
      ("collapses runs of 3 or more consecutive newlines to exactly 2");
    \<^item> no line break is left at either end ("trims the overall result").

  \<open>normalized_layout\<close> is this reading. It uses neither the regular expressions of the
  source nor its order of steps: a line break is a line feed, and every other whitespace
  character only separates words.
\<close>

datatype token = Word jsstring | Newline

text \<open>The words and line breaks of a text, in order.\<close>

function tokens :: "jsstring \<Rightarrow> token list" where
  "tokens [] = []"
| "tokens (c # cs) =
     (if c = LF then Newline # tokens cs
      else if js_space c then tokens cs
      else Word (c # takeWhile (\<lambda>x. \<not> js_space x) cs)
             # tokens (dropWhile (\<lambda>x. \<not> js_space x) cs))"
  by pat_completeness auto
termination
  by (relation "measure length") (auto simp: length_dropWhile_le less_Suc_eq_le)

declare tokens.simps(2) [simp del]

text \<open>Three or more line breaks in a row become two.\<close>

fun squeeze_newlines :: "token list \<Rightarrow> token list" where
  "squeeze_newlines (Newline # Newline # Newline # ts) = squeeze_newlines (Newline # Newline # ts)"
| "squeeze_newlines (t # ts) = t # squeeze_newlines ts"
| "squeeze_newlines [] = []"

text \<open>The line breaks at either end are dropped.\<close>

definition strip_newlines :: "token list \<Rightarrow> token list" where
  "strip_newlines ts =
     rev (dropWhile (\<lambda>t. t = Newline) (rev (dropWhile (\<lambda>t. t = Newline) ts)))"

text \<open>
  The text of a token sequence: one space between two words, a line feed for a line break,
  and nothing else.
\<close>

fun render :: "token list \<Rightarrow> jsstring" where
  "render [] = []"
| "render (Newline # ts) = LF # render ts"
| "render [Word w] = w"
| "render (Word w # Word v # ts) = w @ SP # render (Word v # ts)"
| "render (Word w # Newline # ts) = w @ LF # render ts"

definition normalized_layout :: "jsstring \<Rightarrow> jsstring" where
  "normalized_layout s =
     render (strip_newlines (squeeze_newlines (tokens (filter (\<lambda>c. c \<noteq> ZWSP) s))))"

text \<open>What holds of the globals in every state after the script has loaded.\<close>

definition ready_inv :: "'f globals \<Rightarrow> bool" where
  "ready_inv g \<longleftrightarrow> tessReady g \<and> btnExtract_disabled g = (\<not> cvReady g) \<and>
     btnReprocess_disabled g = (\<not> cvReady g)"

text \<open>A page before any run, for the concrete runs below.\<close>

definition page0 :: page where
  "page0 = \<lparr>statusEl = Idle, resultArea = [], confBadge = None, previewImg = None,
            variantsRow = None, alerts = []\<rparr>"

section \<open>The task list in closed form\<close>

lemma psm_loop_eq: "psm_loop vb i ps acc = acc @ map (mk_task vb i) ps"
  by (induction ps arbitrary: acc) auto


lemma four_block: "map (mk_task (vs ! i) i) psms = map (task_at vs) [4 * i ..< 4 * i + 4]"
proof -
  have "[4 * i ..< 4 * i + 4] = [4 * i, 4 * i + 1, 4 * i + 2, 4 * i + 3]"
    by (simp add: upt_conv_Cons)
  moreover have "task_at vs (4 * i) = mk_task (vs ! i) i ''6''"
    by (simp add: task_at_def psms_def)
  moreover have "task_at vs (4 * i + 1) = mk_task (vs ! i) i ''3''"
  proof -
    have "(4 * i + 1) div 4 = i" "(4 * i + 1) mod 4 = 1" by presburger+
    then show ?thesis by (simp only: task_at_def psms_def) simp
  qed
  moreover have "task_at vs (4 * i + 2) = mk_task (vs ! i) i ''4''"
  proof -
    have "(4 * i + 2) div 4 = i" "(4 * i + 2) mod 4 = 2" by presburger+
    then show ?thesis by (simp only: task_at_def psms_def) simp
  qed
  moreover have "task_at vs (4 * i + 3) = mk_task (vs ! i) i ''11''"
  proof -
    have "(4 * i + 3) div 4 = i" "(4 * i + 3) mod 4 = 3" by presburger+
    then show ?thesis by (simp only: task_at_def psms_def) simp
  qed
  ultimately show ?thesis
    by (simp only: psms_def list.map)
qed

lemma variant_loop_eq:
  "i \<le> length vs \<Longrightarrow>
   variant_loop vs i acc = acc @ map (task_at vs) [4 * i ..< 4 * length vs]"
proof (induction vs i acc rule: variant_loop.induct)
  case (1 variants i ocrTasks)
  show ?case
  proof (cases "i < length variants")
    case True
    have split: "[4 * i ..< 4 * length variants] =
                 [4 * i ..< 4 * i + 4] @ [4 * Suc i ..< 4 * length variants]"
    proof -
      from True obtain m where m: "4 * length variants = (4 * i + 4) + m"
        using le_Suc_ex[of "4 * i + 4" "4 * length variants"] by auto
      have "[4 * i ..< (4 * i + 4) + m] = [4 * i ..< 4 * i + 4] @ [4 * i + 4 ..< (4 * i + 4) + m]"
        by (rule upt_add_eq_append) simp
      moreover have "4 * Suc i = 4 * i + 4" by simp
      ultimately show ?thesis by (simp only: m)
    qed
    have "variant_loop variants i ocrTasks =
          variant_loop variants (Suc i) (psm_loop (variants ! i) i psms ocrTasks)"
      using True by (subst variant_loop.simps) simp
    also have "\<dots> = psm_loop (variants ! i) i psms ocrTasks
                     @ map (task_at variants) [4 * Suc i ..< 4 * length variants]"
      using "1.IH" True by simp
    finally show ?thesis
      by (simp only: psm_loop_eq four_block split map_append append_assoc)
  next
    case False
    with "1.prems" have "i = length variants" by simp
    then show ?thesis by (subst variant_loop.simps) simp
  qed
qed

lemma build_tasks_eq: "build_tasks vs = map (task_at vs) [0 ..< 4 * length vs]"
  by (simp add: build_tasks_def variant_loop_eq)

section \<open>Sorting, selection and \<^verbatim>\<open>Promise.all\<close>\<close>

lemma length_js_insert: "length (js_insert cmp x ys) = Suc (length ys)"
  by (induction ys) auto

lemma length_js_sort: "length (js_sort cmp xs) = length xs"
  by (induction xs) (auto simp: length_js_insert)

lemma js_sort_Nil_iff: "js_sort cmp xs = [] \<longleftrightarrow> xs = []"
  using length_js_sort[of cmp xs] by (metis length_0_conv)

lemma hd_js_insert:
  "hd (js_insert cmp x ys) = (if ys = [] \<or> cmp x (hd ys) \<le> 0 then x else hd ys)"
  by (cases ys) auto

lemma hd_js_sort_first_max:
  "xs \<noteq> [] \<Longrightarrow>
   \<exists>i<length xs. hd (js_sort by_confidence xs) = xs ! i \<and>
      (\<forall>j<length xs. avgConf (xs ! j) \<le> avgConf (xs ! i)) \<and>
      (\<forall>j<i. avgConf (xs ! j) < avgConf (xs ! i))"
proof (induction xs)
  case Nil
  then show ?case by simp
next
  case (Cons x xs)
  show ?case
  proof (cases "xs = []")
    case True
    then show ?thesis by simp
  next
    case False
    with Cons.IH obtain i where i: "i < length xs"
      and hd: "hd (js_sort by_confidence xs) = xs ! i"
      and mx: "\<forall>j<length xs. avgConf (xs ! j) \<le> avgConf (xs ! i)"
      and fst: "\<forall>j<i. avgConf (xs ! j) < avgConf (xs ! i)"
      by blast
    have ne: "js_sort by_confidence xs \<noteq> []"
      using False by (simp add: js_sort_Nil_iff)
    show ?thesis
    proof (cases "avgConf (xs ! i) \<le> avgConf x")
      case True
      then have "hd (js_sort by_confidence (x # xs)) = x"
        using ne hd by (simp add: hd_js_insert by_confidence_def)
      moreover have "\<forall>j<length (x # xs). avgConf ((x # xs) ! j) \<le> avgConf x"
      proof (intro allI impI)
        fix j assume "j < length (x # xs)"
        then show "avgConf ((x # xs) ! j) \<le> avgConf x"
          using mx True by (cases j) (auto intro: order_trans)
      qed
      ultimately show ?thesis
        by (intro exI[of _ 0]) simp
    next
      case False
      then have "hd (js_sort by_confidence (x # xs)) = xs ! i"
        using ne hd by (simp add: hd_js_insert by_confidence_def)
      moreover have "\<forall>j<length (x # xs). avgConf ((x # xs) ! j) \<le> avgConf (xs ! i)"
      proof (intro allI impI)
        fix j assume "j < length (x # xs)"
        then show "avgConf ((x # xs) ! j) \<le> avgConf (xs ! i)"
          using mx False by (cases j) auto
      qed
      moreover have "\<forall>j<Suc i. avgConf ((x # xs) ! j) < avgConf (xs ! i)"
      proof (intro allI impI)
        fix j assume "j < Suc i"
        then show "avgConf ((x # xs) ! j) < avgConf (xs ! i)"
          using fst False by (cases j) auto
      qed
      ultimately show ?thesis
        using i by (intro exI[of _ "Suc i"]) simp
    qed
  qed
qed

lemma select_best_hd: "results \<noteq> [] \<Longrightarrow> select_best results = hd (js_sort by_confidence results)"
  by (cases "js_sort by_confidence results") (auto simp: select_best_def js_sort_Nil_iff)

lemma all_events_fulfilled:
  "all_events (map (\<lambda>k. (k, Inr (f k))) ks) slots = Inr (fold (\<lambda>k s. s[k := Some (f k)]) ks slots)"
  by (induction ks arbitrary: slots) auto

lemma length_fold_slots: "length (fold (\<lambda>k s. s[k := Some (f k)]) ks slots) = length slots"
  by (induction ks arbitrary: slots) auto

lemma nth_fold_slots:
  "j < length slots \<Longrightarrow>
   fold (\<lambda>k s. s[k := Some (f k)]) ks slots ! j = (if j \<in> set ks then Some (f j) else slots ! j)"
proof (induction ks arbitrary: slots)
  case Nil
  then show ?case by simp
next
  case (Cons k ks)
  then show ?case by (auto simp: nth_list_update)
qed

lemma those_map_Some: "those (map Some xs) = Some xs"
  by (induction xs) auto

lemma Promise_all_fulfilled:
  assumes len: "length outcomes = length vs"
    and ok: "\<forall>k<length vs. outcomes ! k = Inr (vs ! k)"
    and all: "{..<length vs} \<subseteq> set ord"
  shows "Promise_all outcomes ord = Fulfilled vs"
proof -
  let ?ks = "filter (\<lambda>k. k < length outcomes) ord"
  have evs: "map (\<lambda>k. (k, outcomes ! k)) ?ks = map (\<lambda>k. (k, Inr (vs ! k))) ?ks"
    using ok len by (intro map_cong) auto
  let ?slots = "fold (\<lambda>k s. s[k := Some (vs ! k)]) ?ks (replicate (length outcomes) None)"
  have "?slots = map Some vs"
  proof (rule nth_equalityI)
    show "length ?slots = length (map Some vs)"
      by (simp add: length_fold_slots len)
  next
    fix j assume "j < length ?slots"
    then have j: "j < length vs" by (simp add: length_fold_slots len)
    then have "j \<in> set ?ks" using all len by auto
    then show "?slots ! j = map Some vs ! j"
      using j len by (simp add: nth_fold_slots)
  qed
  then show ?thesis
    by (simp add: Promise_all_def evs all_events_fulfilled those_map_Some)
qed



section \<open>Dispatch and result selection: the claims\<close>

text \<open>
  C8: with no attempts to rank, \<^verbatim>\<open>results[0]\<close> is undefined and the selected result is the
  literal with empty text and confidence 0.
\<close>

theorem select_best_empty:
  "select_best [] = default_best \<and> ocr_text (select_best []) = [] \<and> avgConf (select_best []) = 0"
  by (simp add: select_best_def default_best_def)

lemma length_build_tasks: "length (build_tasks vs) = 4 * length vs"
  by (simp add: build_tasks_eq)

lemma nth_build_tasks: "k < 4 * length vs \<Longrightarrow> build_tasks vs ! k = task_at vs k"
  by (simp add: build_tasks_eq)

lemma dispatch_fulfilled:
  assumes ok: "\<forall>k<4 * length variants. eng k = Inr (d k)"
    and all: "{..<4 * length variants} \<subseteq> set ord"
  shows "dispatch variants eng ord =
         Fulfilled (map (\<lambda>k. on_fulfilled (task_at variants k) (d k)) [0..<4 * length variants])"
proof -
  let ?vs = "map (\<lambda>k. on_fulfilled (task_at variants k) (d k)) [0..<4 * length variants]"
  let ?outcomes = "map (\<lambda>k. settle (build_tasks variants ! k) (eng k)) [0..<4 * length variants]"
  have "Promise_all ?outcomes ord = Fulfilled ?vs"
  proof (rule Promise_all_fulfilled)
    show "length ?outcomes = length ?vs" by simp
    show "\<forall>k<length ?vs. ?outcomes ! k = Inr (?vs ! k)"
      using ok by (simp add: settle_def nth_build_tasks)
    show "{..<length ?vs} \<subseteq> set ord" using all by simp
  qed
  then show ?thesis
    by (simp add: dispatch_def length_build_tasks)
qed


text \<open>
  C6: the two loops build exactly four requests for each variant, the one at position
  \<open>i * 4 + j\<close> for variant \<open>i\<close> and the \<open>j\<close>-th of the modes 6, 3, 4, 11, each with
  language \<^verbatim>\<open>eng\<close>, \<^verbatim>\<open>load_fast\<close> false, that mode, and the fixed whitelist of letters,
  digits and \<^verbatim>\<open>.,:-()/%&$\<close> and space.
\<close>

theorem ocr_requests_constructed:
  "length (build_tasks variants) = length variants * 4 \<and>
   (\<forall>i<length variants. \<forall>j<4.
      build_tasks variants ! (i * 4 + j) =
        \<lparr>req = \<lparr>img = variants ! i, lang = ''eng'', load_fast = False,
                 tessedit_pageseg_mode = [''6'', ''3'', ''4'', ''11''] ! j,
                 tessedit_char_whitelist =
                   ''ABCDEFGHIJKLMNOPQRSTUVWXYZabcdefghijklmnopqrstuvwxyz0123456789.,:-()/%&$ ''\<rparr>,
          captured_i = i, captured_psm = [''6'', ''3'', ''4'', ''11''] ! j\<rparr>)"
proof (intro conjI allI impI)
  show "length (build_tasks variants) = length variants * 4"
    by (simp add: length_build_tasks)
next
  fix i j :: nat
  assume i: "i < length variants" and j: "j < 4"
  then have k: "i * 4 + j < 4 * length variants" by simp
  have dm: "(i * 4 + j) div 4 = i" "(i * 4 + j) mod 4 = j" using j by simp_all
  show "build_tasks variants ! (i * 4 + j) =
        \<lparr>req = \<lparr>img = variants ! i, lang = ''eng'', load_fast = False,
                 tessedit_pageseg_mode = [''6'', ''3'', ''4'', ''11''] ! j,
                 tessedit_char_whitelist =
                   ''ABCDEFGHIJKLMNOPQRSTUVWXYZabcdefghijklmnopqrstuvwxyz0123456789.,:-()/%&$ ''\<rparr>,
          captured_i = i, captured_psm = [''6'', ''3'', ''4'', ''11''] ! j\<rparr>"
    by (simp only: nth_build_tasks[OF k] task_at_def dm mk_task_def psms_def whitelist_def)
qed

theorem ocr_requests_constructed_witness:
  "length (build_tasks [7::nat, 9]) = 8 \<and>
   build_tasks [7::nat, 9] ! 5 =
     \<lparr>req = \<lparr>img = 9, lang = ''eng'', load_fast = False, tessedit_pageseg_mode = ''3'',
              tessedit_char_whitelist =
                ''ABCDEFGHIJKLMNOPQRSTUVWXYZabcdefghijklmnopqrstuvwxyz0123456789.,:-()/%&$ ''\<rparr>,
       captured_i = 1, captured_psm = ''3''\<rparr>"
proof -
  have h1: "(1::nat) < length [7::nat, 9]" by simp
  have h2: "(1::nat) < 4" by simp
  from ocr_requests_constructed[of "[7::nat, 9]"] h1 h2
  have "length (build_tasks [7::nat, 9]) = length [7::nat, 9] * 4"
    and "build_tasks [7::nat, 9] ! (1 * 4 + 1) =
        \<lparr>req = \<lparr>img = [7::nat, 9] ! 1, lang = ''eng'', load_fast = False,
                 tessedit_pageseg_mode = [''6'', ''3'', ''4'', ''11''] ! 1,
                 tessedit_char_whitelist =
                   ''ABCDEFGHIJKLMNOPQRSTUVWXYZabcdefghijklmnopqrstuvwxyz0123456789.,:-()/%&$ ''\<rparr>,
          captured_i = 1, captured_psm = [''6'', ''3'', ''4'', ''11''] ! 1\<rparr>"
    by blast+
  then show ?thesis by simp
qed

text \<open>
  C1: when every request of a run with at least one variant fulfils, \<^verbatim>\<open>Promise.all\<close>
  gives the attempts in the order the tasks were built (variant first, then mode), whatever
  the order in which the requests settle; the selected attempt has the greatest
  confidence of all, and every attempt before it in that order has a strictly smaller one.
\<close>

theorem best_attempt_is_first_maximum:
  assumes nonempty: "variants \<noteq> []"
    and fulfilled: "\<forall>k<4 * length variants. eng k = Inr (d k)"
    and settled: "set ord = {..<4 * length variants}"
    and settled': "set ord' = {..<4 * length variants}"
  shows "\<exists>results i.
           dispatch variants eng ord = Fulfilled results \<and>
           dispatch variants eng ord' = Fulfilled results \<and>
           length results = 4 * length variants \<and>
           (\<forall>k<length results. variant (results ! k) = Some (int (k div 4) + 1) \<and>
                                psm (results ! k) = Some (psms ! (k mod 4)) \<and>
                                avgConf (results ! k) =
                                  (case data_confidence (d k) of None \<Rightarrow> 0 | Some c \<Rightarrow> c)) \<and>
           i < length results \<and> select_best results = results ! i \<and>
           (\<forall>j<length results. avgConf (results ! j) \<le> avgConf (results ! i)) \<and>
           (\<forall>j<i. avgConf (results ! j) < avgConf (results ! i))"
proof -
  let ?results = "map (\<lambda>k. on_fulfilled (task_at variants k) (d k)) [0..<4 * length variants]"
  have d1: "dispatch variants eng ord = Fulfilled ?results"
    using fulfilled settled by (intro dispatch_fulfilled) auto
  have d2: "dispatch variants eng ord' = Fulfilled ?results"
    using fulfilled settled' by (intro dispatch_fulfilled) auto
  have ne: "?results \<noteq> []" using nonempty by simp
  have tags: "\<forall>k<length ?results. variant (?results ! k) = Some (int (k div 4) + 1) \<and>
                psm (?results ! k) = Some (psms ! (k mod 4)) \<and>
                avgConf (?results ! k) = (case data_confidence (d k) of None \<Rightarrow> 0 | Some c \<Rightarrow> c)"
    by (simp add: on_fulfilled_def task_at_def mk_task_def)
  from hd_js_sort_first_max[OF ne] obtain i where
    "i < length ?results" "hd (js_sort by_confidence ?results) = ?results ! i"
    "\<forall>j<length ?results. avgConf (?results ! j) \<le> avgConf (?results ! i)"
    "\<forall>j<i. avgConf (?results ! j) < avgConf (?results ! i)"
    by blast
  with d1 d2 tags show ?thesis
    unfolding select_best_hd[OF ne, symmetric]
    by (intro exI[of _ ?results] exI[of _ i]) simp
qed

theorem best_attempt_is_first_maximum_witness:
  "\<exists>results i.
     dispatch [0::nat]
       (\<lambda>k. Inr \<lparr>data_text = Some [of_nat k],
                  data_confidence = (if k = 0 then None else Some (if k = 3 then 30 else 80))\<rparr>)
       [3, 1, 0, 2] = Fulfilled results \<and>
     dispatch [0::nat]
       (\<lambda>k. Inr \<lparr>data_text = Some [of_nat k],
                  data_confidence = (if k = 0 then None else Some (if k = 3 then 30 else 80))\<rparr>)
       [0, 1, 2, 3] = Fulfilled results \<and>
     length results = 4 * length [0::nat] \<and>
     (\<forall>k<length results. variant (results ! k) = Some (int (k div 4) + 1) \<and>
        psm (results ! k) = Some (psms ! (k mod 4)) \<and>
        avgConf (results ! k) =
          (case data_confidence \<lparr>data_text = Some [of_nat k],
                  data_confidence = (if k = 0 then None else Some (if k = 3 then 30 else 80))\<rparr>
           of None \<Rightarrow> 0 | Some c \<Rightarrow> c)) \<and>
     i < length results \<and> select_best results = results ! i \<and>
     (\<forall>j<length results. avgConf (results ! j) \<le> avgConf (results ! i)) \<and>
     (\<forall>j<i. avgConf (results ! j) < avgConf (results ! i))"
proof (rule best_attempt_is_first_maximum)
  show "[0::nat] \<noteq> []" by simp
  show "\<forall>k<4 * length [0::nat].
          Inr \<lparr>data_text = Some [of_nat k],
                data_confidence = (if k = 0 then None else Some (if k = 3 then 30 else 80))\<rparr> =
          Inr \<lparr>data_text = Some [of_nat k],
                data_confidence = (if k = 0 then None else Some (if k = 3 then 30 else 80))\<rparr>"
    by simp
  show "set [3, 1, 0, 2] = {..<4 * length [0::nat]}" by auto
  show "set [0, 1, 2, 3] = {..<4 * length [0::nat]}" by auto
qed

lemma select_best_in_set: "results \<noteq> [] \<Longrightarrow> select_best results \<in> set results"
  using hd_js_sort_first_max[of results] by (auto simp: select_best_hd)

text \<open>
  C10: in a run with at least one variant whose requests all fulfil, every attempt carries
  \<open>i + 1\<close> for a position \<open>i\<close> of the variant list, so the winner's \<^verbatim>\<open>variant\<close> lies in
  \<open>[1, N]\<close> and \<^verbatim>\<open>variants[Math.max(0, best.variant - 1)]\<close> reads inside the list.
\<close>

theorem best_variant_lookup_in_bounds:
  assumes nonempty: "variants \<noteq> []"
    and fulfilled: "\<forall>k<4 * length variants. eng k = Inr (d k)"
    and settled: "set ord = {..<4 * length variants}"
  shows "\<exists>results v.
           dispatch variants eng ord = Fulfilled results \<and>
           (\<forall>a\<in>set results. \<exists>i<length variants. variant a = Some (int i + 1)) \<and>
           variant (select_best results) = Some v \<and> 1 \<le> v \<and> v \<le> int (length variants) \<and>
           nat (max 0 (v - 1)) < length variants \<and>
           lookup_best variants (select_best results) = Inr (nat (max 0 (v - 1)))"
proof -
  let ?results = "map (\<lambda>k. on_fulfilled (task_at variants k) (d k)) [0..<4 * length variants]"
  have d1: "dispatch variants eng ord = Fulfilled ?results"
    using fulfilled settled by (intro dispatch_fulfilled) auto
  have tags: "\<forall>a\<in>set ?results. \<exists>i<length variants. variant a = Some (int i + 1)"
  proof
    fix a assume "a \<in> set ?results"
    then obtain k where k: "k < 4 * length variants"
      and a: "a = on_fulfilled (task_at variants k) (d k)" by auto
    have "k div 4 < length variants" using k by simp
    moreover have "variant a = Some (int (k div 4) + 1)"
      by (simp add: a on_fulfilled_def task_at_def mk_task_def)
    ultimately show "\<exists>i<length variants. variant a = Some (int i + 1)" by blast
  qed
  have ne: "?results \<noteq> []" using nonempty by simp
  from select_best_in_set[OF ne] tags obtain i where i: "i < length variants"
    and v: "variant (select_best ?results) = Some (int i + 1)" by blast
  have "lookup_best variants (select_best ?results) = Inr (nat (max 0 (int i + 1 - 1)))"
    using i by (simp add: lookup_best_def v)
  with d1 tags i v show ?thesis
    by (intro exI[of _ ?results] exI[of _ "int i + 1"]) simp
qed

theorem best_variant_lookup_in_bounds_witness:
  "\<exists>results v.
     dispatch [5::nat, 6] (\<lambda>k. Inr \<lparr>data_text = None, data_confidence = Some (real k)\<rparr>)
       [7, 6, 5, 4, 3, 2, 1, 0] = Fulfilled results \<and>
     (\<forall>a\<in>set results. \<exists>i<length [5::nat, 6]. variant a = Some (int i + 1)) \<and>
     variant (select_best results) = Some v \<and> 1 \<le> v \<and> v \<le> int (length [5::nat, 6]) \<and>
     nat (max 0 (v - 1)) < length [5::nat, 6] \<and>
     lookup_best [5::nat, 6] (select_best results) = Inr (nat (max 0 (v - 1)))"
proof (rule best_variant_lookup_in_bounds)
  show "[5::nat, 6] \<noteq> []" by simp
  show "\<forall>k<4 * length [5::nat, 6].
          Inr \<lparr>data_text = None, data_confidence = Some (real k)\<rparr> =
          Inr \<lparr>data_text = None, data_confidence = Some (real k)\<rparr>" by simp
  show "set [7, 6, 5, 4, 3, 2, 1, 0] = {..<4 * length [5::nat, 6]}" by auto
qed

lemma dispatch_no_variants: "dispatch [] eng ord = Fulfilled []"
  by (simp add: dispatch_def build_tasks_eq Promise_all_def)

text \<open>
  C4, the code at an empty variant list: the fallback result is written to the page (empty
  text, the dash for the confidence), then line 348 or 352 reads \<^verbatim>\<open>.mat\<close> of an element
  that does not exist and the run ends in the \<^verbatim>\<open>catch\<close> block with an alert and the
  status \<^verbatim>\<open>Error\<close>.
\<close>

theorem no_variants_run_ends_in_error:
  "doExtract True (inp\<lparr>created := Inr []\<rparr>) pg =
     pg\<lparr>statusEl := Error, resultArea := [], confBadge := None, previewImg := None,
        variantsRow := (if optShowAll inp then Some 0 else None),
        alerts := ProcessingErrorAlert TypeError # alerts pg\<rparr>"
  by (simp add: doExtract_def dispatch_no_variants select_best_def default_best_def
      lookup_best_def on_error_def cleanText_def)




section \<open>Readiness: the claim\<close>

lemma ready_inv_loaded: "ready_inv (script_loaded d1 d2)"
  by (simp add: ready_inv_def script_loaded_def initTesseract_def updateReady_def)

lemma ready_inv_step: "ready_inv g \<Longrightarrow> ready_inv (step g ev)"
  by (cases ev) (simp_all add: ready_inv_def onRuntimeInitialized_def updateReady_def)

lemma ready_inv_foldl: "ready_inv g \<Longrightarrow> ready_inv (foldl step g evs)"
  by (induction evs arbitrary: g) (simp_all add: ready_inv_step)

lemma ready_inv_after_events: "ready_inv (after_events d1 d2 evs)"
  by (simp add: after_events_def ready_inv_foldl ready_inv_loaded)

text \<open>
  C9: in every state the page can reach after the script has loaded, the OCR flag is set
  (line 81 sets it and nothing clears it); while the two flags are not both set, both
  buttons are disabled, so a click starts nothing, and \<^verbatim>\<open>doExtract\<close> itself only raises
  the not-ready alert and leaves the page as it was. So a run gets past line 282 only
  with both flags set.
\<close>

theorem extraction_needs_both_flags:
  "tessReady (after_events d1 d2 evs) \<and>
   (\<not> (cvReady (after_events d1 d2 evs) \<and> tessReady (after_events d1 d2 evs)) \<longrightarrow>
      doExtract (cvReady (after_events d1 d2 evs)) inp pg = pg\<lparr>alerts := NotReadyAlert # alerts pg\<rparr> \<and>
      click_extract (after_events d1 d2 evs) inp pg = pg \<and>
      click_reprocess (after_events d1 d2 evs) inp pg = pg)"
  using ready_inv_after_events[of d1 d2 evs]
  by (simp add: ready_inv_def doExtract_def click_extract_def click_reprocess_def click_def)

theorem extraction_needs_both_flags_witness:
  "\<not> (cvReady (after_events False False [FileChange (Some (1::nat)), ClickExtract]) \<and>
       tessReady (after_events False False [FileChange (Some (1::nat)), ClickExtract])) \<and>
   doExtract (cvReady (after_events False False [FileChange (Some (1::nat)), ClickExtract]))
      \<lparr>created = Inr [0::nat], engine = (\<lambda>k. Inl (EngineError k)), order = [],
       optNormalize = True, optShowAll = True\<rparr> page0 =
     page0\<lparr>alerts := [NotReadyAlert]\<rparr> \<and>
   click_extract (after_events False False [FileChange (Some (1::nat)), ClickExtract])
      \<lparr>created = Inr [0::nat], engine = (\<lambda>k. Inl (EngineError k)), order = [],
       optNormalize = True, optShowAll = True\<rparr> page0 = page0"
proof -
  have h: "\<not> (cvReady (after_events False False [FileChange (Some (1::nat)), ClickExtract]) \<and>
       tessReady (after_events False False [FileChange (Some (1::nat)), ClickExtract]))"
    by (simp add: after_events_def script_loaded_def initTesseract_def updateReady_def)
  show ?thesis
    using h extraction_needs_both_flags[of False False "[FileChange (Some (1::nat)), ClickExtract]"
        "\<lparr>created = Inr [0::nat], engine = (\<lambda>k. Inl (EngineError k)), order = [],
       optNormalize = True, optShowAll = True\<rparr>" page0]
    by (simp add: page0_def)
qed

section \<open>Skew estimation: the claim\<close>

subsection \<open>\<^verbatim>\<open>Math.atan2\<close> is the polar angle\<close>

lemma polar_pos:
  fixes x y :: real
  assumes "0 < x"
  shows "sqrt (x\<^sup>2 + y\<^sup>2) * cos (arctan (y / x)) = x"
    and "sqrt (x\<^sup>2 + y\<^sup>2) * sin (arctan (y / x)) = y"
proof -
  have "1 + (y / x)\<^sup>2 = (x\<^sup>2 + y\<^sup>2) / x\<^sup>2"
    using assms by (simp add: field_simps power2_eq_square)
  then have "sqrt (1 + (y / x)\<^sup>2) = sqrt (x\<^sup>2 + y\<^sup>2) / x"
    using assms by (simp add: real_sqrt_divide)
  moreover have "0 < sqrt (x\<^sup>2 + y\<^sup>2)"
    using assms by (simp add: sum_power2_gt_zero_iff)
  ultimately show "sqrt (x\<^sup>2 + y\<^sup>2) * cos (arctan (y / x)) = x"
    and "sqrt (x\<^sup>2 + y\<^sup>2) * sin (arctan (y / x)) = y"
    using assms by (simp_all add: cos_arctan sin_arctan)
qed

lemma polar_neg:
  fixes x y :: real
  assumes "x < 0"
  shows "sqrt (x\<^sup>2 + y\<^sup>2) * cos (arctan (y / x)) = - x"
    and "sqrt (x\<^sup>2 + y\<^sup>2) * sin (arctan (y / x)) = - y"
proof -
  have "0 < - x" using assms by simp
  from polar_pos[OF this, of "- y"] show "sqrt (x\<^sup>2 + y\<^sup>2) * cos (arctan (y / x)) = - x"
    and "sqrt (x\<^sup>2 + y\<^sup>2) * sin (arctan (y / x)) = - y"
    by simp_all
qed

lemma atan2_polar:
  assumes "x \<noteq> 0 \<or> y \<noteq> 0"
  shows "- pi < atan2 y x" and "atan2 y x \<le> pi"
    and "sqrt (x\<^sup>2 + y\<^sup>2) * cos (atan2 y x) = x"
    and "sqrt (x\<^sup>2 + y\<^sup>2) * sin (atan2 y x) = y"
proof -
  have b: "- (pi / 2) < arctan (y / x)" "arctan (y / x) < pi / 2"
    by (rule arctan_lbound, rule arctan_ubound)
  consider "0 < x" | "x < 0" "0 \<le> y" | "x < 0" "y < 0" | "x = 0" "0 < y" | "x = 0" "y < 0"
    using assms by linarith
  then have "- pi < atan2 y x \<and> atan2 y x \<le> pi \<and>
      sqrt (x\<^sup>2 + y\<^sup>2) * cos (atan2 y x) = x \<and> sqrt (x\<^sup>2 + y\<^sup>2) * sin (atan2 y x) = y"
  proof cases
    case 1
    then show ?thesis using b polar_pos[OF 1, of y] by (simp add: atan2_def)
  next
    case 2
    have "arctan (y / x) \<le> 0"
      using 2 by (simp add: arctan_le_zero_iff divide_nonneg_neg)
    then show ?thesis using 2 b polar_neg[OF 2(1), of y] by (simp add: atan2_def)
  next
    case 3
    have "0 < arctan (y / x)"
      using 3 by (simp add: zero_less_arctan_iff divide_neg_neg)
    then show ?thesis using 3 b polar_neg[OF 3(1), of y] by (simp add: atan2_def)
  next
    case 4
    then show ?thesis by (simp add: atan2_def)
  next
    case 5
    have "- (pi / 2) \<le> pi" using pi_gt_zero by linarith
    with 5 show ?thesis by (simp add: atan2_def)
  qed
  then show "- pi < atan2 y x" and "atan2 y x \<le> pi"
    and "sqrt (x\<^sup>2 + y\<^sup>2) * cos (atan2 y x) = x"
    and "sqrt (x\<^sup>2 + y\<^sup>2) * sin (atan2 y x) = y"
    by simp_all
qed


lemma kept_iff:
  fixes x y :: real
  shows "\<bar>atan2 y x * 180 / pi\<bar> < 45 \<longleftrightarrow> \<bar>y\<bar> < x \<or> (x = 0 \<and> y = 0)"
proof -
  have deg: "\<bar>a * 180 / pi\<bar> < 45 \<longleftrightarrow> \<bar>a\<bar> < pi / 4" for a :: real
  proof -
    have "\<bar>a * 180 / pi\<bar> = \<bar>a\<bar> * 180 / pi" by (simp add: abs_mult)
    moreover have "\<bar>a\<bar> * 180 / pi < 45 \<longleftrightarrow> \<bar>a\<bar> * 180 < 45 * pi"
      by (simp add: pos_divide_less_eq)
    ultimately show ?thesis by auto
  qed
  have b: "- (pi / 2) < arctan (y / x)" "arctan (y / x) < pi / 2"
    by (rule arctan_lbound, rule arctan_ubound)
  have p: "0 < pi" by simp
  consider "0 < x" | "x < 0" "0 \<le> y" | "x < 0" "y < 0" | "x = 0" "0 < y" | "x = 0" "y < 0"
    | "x = 0" "y = 0"
    by linarith
  then have "\<bar>atan2 y x\<bar> < pi / 4 \<longleftrightarrow> \<bar>y\<bar> < x \<or> (x = 0 \<and> y = 0)"
  proof cases
    case 1
    have "\<bar>arctan (y / x)\<bar> < pi / 4 \<longleftrightarrow> - 1 < y / x \<and> y / x < 1"
    proof -
      have "arctan (y / x) < arctan 1 \<longleftrightarrow> y / x < 1" by (rule arctan_less_iff)
      moreover have "arctan (- 1) < arctan (y / x) \<longleftrightarrow> - 1 < y / x" by (rule arctan_less_iff)
      ultimately show ?thesis by (auto simp: arctan_one arctan_minus abs_less_iff)
    qed
    also have "\<dots> \<longleftrightarrow> \<bar>y\<bar> < x"
      using 1 by (auto simp: pos_less_divide_eq pos_divide_less_eq abs_less_iff)
    finally show ?thesis using 1 by (simp add: atan2_def)
  next
    case 2
    then have "atan2 y x = arctan (y / x) + pi" by (simp add: atan2_def)
    then have "pi / 2 < atan2 y x" using b by linarith
    then have "\<not> \<bar>atan2 y x\<bar> < pi / 4" using p by linarith
    then show ?thesis using 2 by auto
  next
    case 3
    then have "atan2 y x = arctan (y / x) - pi" by (simp add: atan2_def)
    then have "atan2 y x < - (pi / 2)" using b by linarith
    then have "\<not> \<bar>atan2 y x\<bar> < pi / 4" using p by linarith
    then show ?thesis using 3 by auto
  next
    case 4
    then have "atan2 y x = pi / 2" by (simp add: atan2_def)
    then have "\<not> \<bar>atan2 y x\<bar> < pi / 4" using p by linarith
    then show ?thesis using 4 by auto
  next
    case 5
    then have "atan2 y x = - (pi / 2)" by (simp add: atan2_def)
    then have "\<not> \<bar>atan2 y x\<bar> < pi / 4" using p by linarith
    then show ?thesis using 5 by auto
  next
    case 6
    then show ?thesis by (simp add: atan2_def)
  qed
  then show ?thesis by (simp only: deg)
qed

lemma kept_angle:
  fixes x y :: real
  assumes "\<bar>y\<bar> < x \<or> (x = 0 \<and> y = 0)"
  shows "atan2 y x = arctan (y / x)"
  using assms by (auto simp: atan2_def)

subsection \<open>The angles kept and the one returned\<close>

lemma collect_angles_eq:
  "collect_angles ls acc = acc @ filter (\<lambda>a. \<bar>a\<bar> < 45) (map segment_angle ls)"
  by (induction ls arbitrary: acc) (auto simp: Let_def)

lemma js_insert_ascending: "js_insert ascending x ys = insort x ys"
  by (induction ys) (auto simp: ascending_def)

lemma js_sort_ascending: "js_sort ascending xs = sort xs"
  by (induction xs) (auto simp: js_insert_ascending)

lemma computeSkewAngle_Inr:
  "computeSkewAngle (Inr ls) =
     (if filter (\<lambda>a. \<bar>a\<bar> < 45) (map segment_angle ls) = [] then 0
      else sort (filter (\<lambda>a. \<bar>a\<bar> < 45) (map segment_angle ls))
             ! (length (filter (\<lambda>a. \<bar>a\<bar> < 45) (map segment_angle ls)) div 2))"
  by (simp add: computeSkewAngle_def collect_angles_eq js_sort_ascending Let_def)

lemma segment_angle_eq:
  "segment_angle =
     (\<lambda>(x1, y1, x2, y2). atan2 (real_of_int (y2 - y1)) (real_of_int (x2 - x1)) * 180 / pi)"
  by (rule ext) (simp add: segment_angle_def)

lemma filter_map_as_map_filter:
  assumes "\<And>l. P (f l) \<longleftrightarrow> Q l" and "\<And>l. Q l \<Longrightarrow> f l = g l"
  shows "filter P (map f ls) = map g (filter Q ls)"
  using assms by (induction ls) auto

lemma of_int_kept:
  "\<bar>real_of_int b\<bar> < real_of_int a \<or> (real_of_int a = 0 \<and> real_of_int b = 0) \<longleftrightarrow>
   \<bar>b\<bar> < a \<or> (a = 0 \<and> b = 0)"
proof -
  have "\<bar>real_of_int b\<bar> < real_of_int a \<longleftrightarrow> \<bar>b\<bar> < a"
    by (metis of_int_abs of_int_less_iff)
  then show ?thesis by simp
qed

lemma kept_angles_arctan:
  "filter (\<lambda>a. \<bar>a\<bar> < 45) (map segment_angle ls) =
   map (\<lambda>(x1, y1, x2, y2). arctan (real_of_int (y2 - y1) / real_of_int (x2 - x1)) * 180 / pi)
       (filter (\<lambda>(x1, y1, x2, y2). \<bar>y2 - y1\<bar> < x2 - x1 \<or> (x2 = x1 \<and> y2 = y1)) ls)"
proof (rule filter_map_as_map_filter)
  fix l :: segment
  obtain x1 y1 x2 y2 where l: "l = (x1, y1, x2, y2)" by (cases l) auto
  have "\<bar>segment_angle l\<bar> < 45 \<longleftrightarrow>
        \<bar>real_of_int (y2 - y1)\<bar> < real_of_int (x2 - x1) \<or>
        (real_of_int (x2 - x1) = 0 \<and> real_of_int (y2 - y1) = 0)"
    unfolding l segment_angle_def by (simp only: prod.case kept_iff)
  also have "\<dots> \<longleftrightarrow> \<bar>y2 - y1\<bar> < x2 - x1 \<or> (x2 - x1 = 0 \<and> y2 - y1 = 0)"
    by (rule of_int_kept)
  also have "\<dots> \<longleftrightarrow> \<bar>y2 - y1\<bar> < x2 - x1 \<or> (x2 = x1 \<and> y2 = y1)"
    by auto
  finally show "\<bar>segment_angle l\<bar> < 45 \<longleftrightarrow>
        (case l of (x1, y1, x2, y2) \<Rightarrow> \<bar>y2 - y1\<bar> < x2 - x1 \<or> (x2 = x1 \<and> y2 = y1))"
    by (simp only: l prod.case)
next
  fix l :: segment
  assume q: "case l of (x1, y1, x2, y2) \<Rightarrow> \<bar>y2 - y1\<bar> < x2 - x1 \<or> (x2 = x1 \<and> y2 = y1)"
  obtain x1 y1 x2 y2 where l: "l = (x1, y1, x2, y2)" by (cases l) auto
  from q have "\<bar>y2 - y1\<bar> < x2 - x1 \<or> (x2 - x1 = 0 \<and> y2 - y1 = 0)"
    by (auto simp: l)
  then have "\<bar>real_of_int (y2 - y1)\<bar> < real_of_int (x2 - x1) \<or>
        (real_of_int (x2 - x1) = 0 \<and> real_of_int (y2 - y1) = 0)"
    by (simp only: of_int_kept)
  then have "atan2 (real_of_int (y2 - y1)) (real_of_int (x2 - x1)) =
        arctan (real_of_int (y2 - y1) / real_of_int (x2 - x1))"
    by (rule kept_angle)
  then show "segment_angle l =
        (case l of (x1, y1, x2, y2) \<Rightarrow>
           arctan (real_of_int (y2 - y1) / real_of_int (x2 - x1)) * 180 / pi)"
    by (simp only: l prod.case segment_angle_def)
qed

text \<open>
  C3, as the code has it. \<^verbatim>\<open>atan2(y, x)\<close> is the polar angle of \<open>(x, y)\<close> in \<open>(-\<pi>, \<pi>]\<close>, and 0
  at the origin. A thrown detection gives 0, and so does an empty list of kept angles;
  otherwise the result is the element at position \<open>n div 2\<close> of the ascending kept angles
  \<^verbatim>\<open>atan2(dy, dx) * 180 / PI\<close> with \<open>\<bar>angle\<bar> < 45\<close>: the median of an odd number of angles, the
  upper of the two middle ones of an even number. The kept angles are those of the
  segments with \<open>\<bar>dy\<bar> < dx\<close> and of the segments of length 0, and are \<open>arctan (dy / dx)\<close> in
  degrees. In every case the result lies strictly between -45 and 45.
\<close>

theorem skew_is_upper_middle_kept_angle:
  "atan2 0 0 = 0 \<and>
   (x \<noteq> 0 \<or> y \<noteq> 0 \<longrightarrow>
      - pi < atan2 y x \<and> atan2 y x \<le> pi \<and>
      sqrt (x\<^sup>2 + y\<^sup>2) * cos (atan2 y x) = x \<and> sqrt (x\<^sup>2 + y\<^sup>2) * sin (atan2 y x) = y) \<and>
   computeSkewAngle (Inl e) = 0 \<and>
   - 45 < computeSkewAngle detected \<and> computeSkewAngle detected < 45 \<and>
   computeSkewAngle (Inr ls) =
     (if filter (\<lambda>a. \<bar>a\<bar> < 45)
           (map (\<lambda>(x1, y1, x2, y2).
                   atan2 (real_of_int (y2 - y1)) (real_of_int (x2 - x1)) * 180 / pi) ls) = []
      then 0
      else sort (filter (\<lambda>a. \<bar>a\<bar> < 45)
                  (map (\<lambda>(x1, y1, x2, y2).
                          atan2 (real_of_int (y2 - y1)) (real_of_int (x2 - x1)) * 180 / pi) ls))
           ! (length (filter (\<lambda>a. \<bar>a\<bar> < 45)
                  (map (\<lambda>(x1, y1, x2, y2).
                          atan2 (real_of_int (y2 - y1)) (real_of_int (x2 - x1)) * 180 / pi) ls))
              div 2)) \<and>
   filter (\<lambda>a. \<bar>a\<bar> < 45)
     (map (\<lambda>(x1, y1, x2, y2).
             atan2 (real_of_int (y2 - y1)) (real_of_int (x2 - x1)) * 180 / pi) ls) =
   map (\<lambda>(x1, y1, x2, y2). arctan (real_of_int (y2 - y1) / real_of_int (x2 - x1)) * 180 / pi)
       (filter (\<lambda>(x1, y1, x2, y2). \<bar>y2 - y1\<bar> < x2 - x1 \<or> (x2 = x1 \<and> y2 = y1)) ls)"
proof -
  have origin: "atan2 0 0 = 0" by (simp add: atan2_def)
  have polar: "x \<noteq> 0 \<or> y \<noteq> 0 \<longrightarrow>
      - pi < atan2 y x \<and> atan2 y x \<le> pi \<and>
      sqrt (x\<^sup>2 + y\<^sup>2) * cos (atan2 y x) = x \<and> sqrt (x\<^sup>2 + y\<^sup>2) * sin (atan2 y x) = y"
    using atan2_polar[of x y] by blast
  have thrown: "computeSkewAngle (Inl e) = 0" for e
    by (simp add: computeSkewAngle_def)
  have range: "- 45 < computeSkewAngle detected \<and> computeSkewAngle detected < 45"
  proof (cases detected)
    case (Inl e)
    then show ?thesis by (simp add: thrown)
  next
    case (Inr ls')
    define A where "A = filter (\<lambda>a. \<bar>a\<bar> < 45) (map segment_angle ls')"
    show ?thesis
    proof (cases "A = []")
      case True
      then show ?thesis by (simp add: Inr computeSkewAngle_Inr A_def)
    next
      case False
      then have "length A div 2 < length (sort A)" by simp
      then have "sort A ! (length A div 2) \<in> set (sort A)" by (rule nth_mem)
      then have "sort A ! (length A div 2) \<in> set A" by simp
      then have "\<bar>sort A ! (length A div 2)\<bar> < 45" by (auto simp: A_def)
      moreover have "computeSkewAngle (Inr ls') = sort A ! (length A div 2)"
        using False by (simp add: computeSkewAngle_Inr A_def)
      ultimately show ?thesis by (simp add: Inr abs_less_iff)
    qed
  qed
  show ?thesis
    using origin polar thrown range computeSkewAngle_Inr[of ls] kept_angles_arctan[of ls]
    unfolding segment_angle_eq by blast
qed

lemma angle_half: "0 < arctan (1 / 2) * 180 / pi" "arctan (1 / 2) * 180 / pi < 45"
proof -
  have pos: "0 < arctan (1 / 2 :: real)"
    by (simp add: zero_less_arctan_iff)
  have "arctan (1 / 2 :: real) < arctan 1"
    by (rule arctan_monotone) simp
  then have lt: "arctan (1 / 2 :: real) < pi / 4"
    by (simp add: arctan_one)
  show "0 < arctan (1 / 2) * 180 / pi" using pos by simp
  have "arctan (1 / 2) * 180 < 45 * pi" using lt by simp
  then show "arctan (1 / 2) * 180 / pi < 45"
    by (simp add: pos_divide_less_eq)
qed

lemma sort_pair: "0 < (a::real) \<Longrightarrow> sort [a, 0] = [0, a]"
  by simp

lemma sort_pair': "0 < (a::real) \<Longrightarrow> sort [- a, a] = [- a, a]"
  by simp

theorem skew_is_upper_middle_kept_angle_witness:
  "computeSkewAngle (Inr [(0, 0, 2, 1), (0, 0, 10, 0), (0, 0, 1, 1), (3, 4, 3, 9)]) =
     arctan (1 / 2) * 180 / pi \<and>
   - pi < atan2 1 2 \<and> atan2 1 2 \<le> pi \<and>
   sqrt (2\<^sup>2 + 1\<^sup>2) * cos (atan2 1 2) = 2 \<and> sqrt (2\<^sup>2 + 1\<^sup>2) * sin (atan2 1 2) = 1"
proof -
  let ?ls = "[(0, 0, 2, 1), (0, 0, 10, 0), (0, 0, 1, 1), (3, 4, 3, 9)] :: segment list"
  let ?A = "filter (\<lambda>a. \<bar>a\<bar> < 45)
     (map (\<lambda>(x1, y1, x2, y2).
             atan2 (real_of_int (y2 - y1)) (real_of_int (x2 - x1)) * 180 / pi) ?ls)"
  note t = skew_is_upper_middle_kept_angle[of 2 1 "CvError 0" "Inr ?ls" ?ls]
  have h: "(2::real) \<noteq> 0 \<or> (1::real) \<noteq> 0" by simp
  from t h have polar: "- pi < atan2 1 2 \<and> atan2 1 2 \<le> pi \<and>
      sqrt (2\<^sup>2 + 1\<^sup>2) * cos (atan2 1 2) = 2 \<and> sqrt (2\<^sup>2 + 1\<^sup>2) * sin (atan2 1 2) = 1"
    by blast
  from t have "?A =
      map (\<lambda>(x1, y1, x2, y2). arctan (real_of_int (y2 - y1) / real_of_int (x2 - x1)) * 180 / pi)
       (filter (\<lambda>(x1, y1, x2, y2). \<bar>y2 - y1\<bar> < x2 - x1 \<or> (x2 = x1 \<and> y2 = y1)) ?ls)"
    by blast
  then have A: "?A = [arctan (1 / 2) * 180 / pi, 0]" by simp
  from t have "computeSkewAngle (Inr ?ls) =
      (if ?A = [] then 0 else sort ?A ! (length ?A div 2))" by blast
  then have "computeSkewAngle (Inr ?ls) = sort [arctan (1 / 2) * 180 / pi, 0] ! 1"
    unfolding A by simp
  also have "\<dots> = arctan (1 / 2) * 180 / pi"
    by (simp only: sort_pair[OF angle_half(1)]) simp
  finally show ?thesis using polar by blast
qed

lemma angle_tenth: "0 < arctan (1 / 10) * 180 / pi"
  by (simp add: zero_less_arctan_iff)

text \<open>
  C3 as stated fails for an even number of kept angles: the segments from the origin to
  \<open>(10, -1)\<close> and to \<open>(10, 1)\<close> have the angles \<open>-a\<close> and \<open>a\<close> with \<open>a = arctan (1 / 10)\<close> in
  degrees (about 5.71), both are kept, their median is 0, and the code returns \<open>a\<close>.
\<close>

theorem skew_even_count_counterexample:
  "filter (\<lambda>a. \<bar>a\<bar> < 45) (map segment_angle [(0, 0, 10, - 1), (0, 0, 10, 1)]) =
     [- (arctan (1 / 10) * 180 / pi), arctan (1 / 10) * 180 / pi] \<and>
   computeSkewAngle (Inr [(0, 0, 10, - 1), (0, 0, 10, 1)]) = arctan (1 / 10) * 180 / pi \<and>
   computeSkewAngle (Inr [(0, 0, 10, - 1), (0, 0, 10, 1)]) \<noteq>
     (- (arctan (1 / 10) * 180 / pi) + arctan (1 / 10) * 180 / pi) / 2"
proof -
  let ?ls = "[(0, 0, 10, - 1), (0, 0, 10, 1)] :: segment list"
  have A: "filter (\<lambda>a. \<bar>a\<bar> < 45) (map segment_angle ?ls) =
      [- (arctan (1 / 10) * 180 / pi), arctan (1 / 10) * 180 / pi]"
    unfolding kept_angles_arctan by (simp add: arctan_minus)
  have "computeSkewAngle (Inr ?ls) =
      sort [- (arctan (1 / 10) * 180 / pi), arctan (1 / 10) * 180 / pi] ! 1"
    unfolding computeSkewAngle_Inr A by simp
  also have "\<dots> = arctan (1 / 10) * 180 / pi"
    by (simp only: sort_pair'[OF angle_tenth]) simp
  finally have r: "computeSkewAngle (Inr ?ls) = arctan (1 / 10) * 180 / pi" .
  have "arctan (1 / 10) * 180 / pi \<noteq> (- (arctan (1 / 10) * 180 / pi) + arctan (1 / 10) * 180 / pi) / 2"
    using angle_tenth by simp
  with A r show ?thesis by simp
qed

section \<open>Text normalisation: the claims\<close>

subsection \<open>The four replacements as recursion equations\<close>

lemma strip_zwsp_eq: "strip_zwsp s = filter (\<lambda>c. c \<noteq> ZWSP) s"
  by (induction s) (auto simp: strip_zwsp_def re_zwsp_def)

lemma collapse_hspace_Nil [simp]: "collapse_hspace [] = []"
  by (simp add: collapse_hspace_def)

lemma collapse_hspace_hit:
  "hspace c \<Longrightarrow> collapse_hspace (c # cs) = SP # collapse_hspace (dropWhile hspace cs)"
  by (simp add: collapse_hspace_def re_hspace_run_def dropWhile_eq_drop)

lemma collapse_hspace_miss:
  "\<not> hspace c \<Longrightarrow> collapse_hspace (c # cs) = c # collapse_hspace cs"
  by (simp add: collapse_hspace_def re_hspace_run_def)

lemma strip_blanks_lf_Nil [simp]: "strip_blanks_lf [] = []"
  by (simp add: strip_blanks_lf_def)

lemma re_blanks_lf_Cons:
  "re_blanks_lf (c # cs) =
     (if sp_tab c \<and> take 1 (dropWhile sp_tab cs) = [LF]
      then Some (length (takeWhile sp_tab cs) + 2) else None)"
  by (simp add: re_blanks_lf_def dropWhile_eq_drop)

lemma strip_blanks_lf_hit:
  "sp_tab c \<Longrightarrow> dropWhile sp_tab cs = LF # rest \<Longrightarrow>
   strip_blanks_lf (c # cs) = LF # strip_blanks_lf rest"
proof -
  assume c: "sp_tab c" and d: "dropWhile sp_tab cs = LF # rest"
  have "drop (Suc (length (takeWhile sp_tab cs))) cs = rest"
    using d by (metis dropWhile_eq_drop drop_Suc list.sel(3) tl_drop)
  then show ?thesis
    using c d by (simp add: strip_blanks_lf_def re_blanks_lf_Cons)
qed

lemma strip_blanks_lf_miss:
  "\<not> (sp_tab c \<and> take 1 (dropWhile sp_tab cs) = [LF]) \<Longrightarrow>
   strip_blanks_lf (c # cs) = c # strip_blanks_lf cs"
  by (auto simp: strip_blanks_lf_def re_blanks_lf_Cons)

lemma collapse_lf_Nil [simp]: "collapse_lf [] = []"
  by (simp add: collapse_lf_def)

lemma collapse_lf_hit:
  "c = LF \<Longrightarrow> 2 \<le> length (takeWhile (\<lambda>x. x = LF) cs) \<Longrightarrow>
   collapse_lf (c # cs) = LF # LF # collapse_lf (dropWhile (\<lambda>x. x = LF) cs)"
  by (simp add: collapse_lf_def re_lf3_def dropWhile_eq_drop)

lemma collapse_lf_miss:
  "\<not> (c = LF \<and> 2 \<le> length (takeWhile (\<lambda>x. x = LF) cs)) \<Longrightarrow>
   collapse_lf (c # cs) = c # collapse_lf cs"
  by (auto simp: collapse_lf_def re_lf3_def)

subsection \<open>Characters\<close>

lemma char_neq [simp]:
  "SP \<noteq> LF" "LF \<noteq> SP" "SP \<noteq> CR" "SP \<noteq> ZWSP" "LF \<noteq> CR" "LF \<noteq> ZWSP" "TAB \<noteq> LF"
  "CR \<noteq> LF" "ZWSP \<noteq> SP" "ZWSP \<noteq> LF" "CR \<noteq> SP" "LF \<noteq> TAB" "SP \<noteq> TAB"
  "TAB \<noteq> SP" "CR \<noteq> ZWSP" "ZWSP \<noteq> CR" "CR \<noteq> TAB" "TAB \<noteq> CR"
  by (simp_all add: SP_def LF_def CR_def ZWSP_def TAB_def)

lemma js_space_chars [simp]:
  "js_space SP" "js_space LF" "js_space CR" "js_space TAB" "\<not> js_space ZWSP"
  by (simp_all add: js_space_def SP_def LF_def CR_def ZWSP_def TAB_def)

lemma hspace_chars [simp]: "hspace SP" "hspace TAB" "\<not> hspace LF" "\<not> hspace CR" "\<not> hspace ZWSP"
  by (simp_all add: hspace_def js_space_def SP_def LF_def CR_def ZWSP_def TAB_def)

lemma sp_tab_chars [simp]: "sp_tab SP" "sp_tab TAB" "\<not> sp_tab LF"
  by (simp_all add: sp_tab_def SP_def LF_def TAB_def)

lemma sp_tab_hspace: "sp_tab c \<Longrightarrow> hspace c"
  by (auto simp: sp_tab_def)

lemma js_space_cases: "js_space c \<longleftrightarrow> hspace c \<or> c = CR \<or> c = LF"
  by (auto simp: hspace_def)

subsection \<open>Induction along each replacement\<close>

lemma collapse_hspace_induct [case_names Nil hit miss]:
  assumes "P []"
    and "\<And>c cs. hspace c \<Longrightarrow> P (dropWhile hspace cs) \<Longrightarrow> P (c # cs)"
    and "\<And>c cs. \<not> hspace c \<Longrightarrow> P cs \<Longrightarrow> P (c # cs)"
  shows "P s"
proof (induction s rule: length_induct)
  case (1 s)
  show ?case
  proof (cases s)
    case Nil
    then show ?thesis using assms(1) by simp
  next
    case (Cons c cs)
    have "length (dropWhile hspace cs) < length s"
      using Cons length_dropWhile_le[of hspace cs] by simp
    then show ?thesis
      using 1 Cons assms(2,3) by (cases "hspace c") auto
  qed
qed

lemma take1_eq: "take 1 xs = [a] \<longleftrightarrow> (\<exists>rest. xs = a # rest)"
  by (cases xs) auto

lemma strip_blanks_lf_miss':
  "\<not> (sp_tab c \<and> (\<exists>rest. dropWhile sp_tab cs = LF # rest)) \<Longrightarrow>
   strip_blanks_lf (c # cs) = c # strip_blanks_lf cs"
  by (rule strip_blanks_lf_miss) (simp only: take1_eq, blast)

lemma strip_blanks_lf_induct [case_names Nil hit miss]:
  assumes "P []"
    and "\<And>c cs rest. sp_tab c \<Longrightarrow> dropWhile sp_tab cs = LF # rest \<Longrightarrow> P rest \<Longrightarrow> P (c # cs)"
    and "\<And>c cs. \<not> (sp_tab c \<and> (\<exists>rest. dropWhile sp_tab cs = LF # rest)) \<Longrightarrow> P cs \<Longrightarrow> P (c # cs)"
  shows "P s"
proof (induction s rule: length_induct)
  case (1 s)
  show ?case
  proof (cases s)
    case Nil
    then show ?thesis using assms(1) by simp
  next
    case (Cons c cs)
    show ?thesis
    proof (cases "sp_tab c \<and> (\<exists>rest. dropWhile sp_tab cs = LF # rest)")
      case True
      then obtain rest where r: "dropWhile sp_tab cs = LF # rest" by blast
      have "length (dropWhile sp_tab cs) \<le> length cs" by (rule length_dropWhile_le)
      then have "length rest < length s" using r Cons by simp
      then show ?thesis using 1 Cons True r assms(2) by blast
    next
      case False
      then show ?thesis using 1 Cons assms(3) by simp
    qed
  qed
qed

lemma collapse_lf_induct [case_names Nil hit miss]:
  assumes "P []"
    and "\<And>cs. 2 \<le> length (takeWhile (\<lambda>x. x = LF) cs) \<Longrightarrow>
           P (dropWhile (\<lambda>x. x = LF) cs) \<Longrightarrow> P (LF # cs)"
    and "\<And>c cs. \<not> (c = LF \<and> 2 \<le> length (takeWhile (\<lambda>x. x = LF) cs)) \<Longrightarrow> P cs \<Longrightarrow> P (c # cs)"
  shows "P s"
proof (induction s rule: length_induct)
  case (1 s)
  show ?case
  proof (cases s)
    case Nil
    then show ?thesis using assms(1) by simp
  next
    case (Cons c cs)
    have "length (dropWhile (\<lambda>x. x = LF) cs) < length s"
      using Cons length_dropWhile_le[of "\<lambda>x. x = LF" cs] by simp
    then show ?thesis
      using 1 Cons assms(2,3)
      by (cases "c = LF \<and> 2 \<le> length (takeWhile (\<lambda>x. x = LF) cs)") auto
  qed
qed

subsection \<open>What each step can put into the text\<close>

lemma set_strip_zwsp: "set (strip_zwsp s) = set s - {ZWSP}"
  by (auto simp: strip_zwsp_eq)

lemma set_collapse_hspace: "set (collapse_hspace s) \<subseteq> set s \<union> {SP}"
  by (induction s rule: collapse_hspace_induct)
     (auto simp: collapse_hspace_hit collapse_hspace_miss dest: set_dropWhileD)

lemma set_strip_blanks_lf: "set (strip_blanks_lf s) \<subseteq> set s"
proof (induction s rule: strip_blanks_lf_induct)
  case Nil
  then show ?case by simp
next
  case (hit c cs rest)
  have "set (LF # rest) \<subseteq> set cs"
    using hit(2) set_dropWhileD[of _ sp_tab cs] by (metis subsetI)
  then show ?case using hit by (auto simp: strip_blanks_lf_hit)
next
  case (miss c cs)
  then show ?case by (auto simp: strip_blanks_lf_miss')
qed

lemma set_collapse_lf: "set (collapse_lf s) \<subseteq> set s"
  by (induction s rule: collapse_lf_induct)
     (auto simp: collapse_lf_hit collapse_lf_miss dest: set_dropWhileD)

lemma set_trim: "set (trim s) \<subseteq> set s"
proof
  fix x assume "x \<in> set (trim s)"
  then have "x \<in> set (dropWhile js_space (rev (dropWhile js_space s)))"
    by (simp add: trim_def)
  then have "x \<in> set (rev (dropWhile js_space s))" by (rule set_dropWhileD)
  then have "x \<in> set (dropWhile js_space s)" by simp
  then show "x \<in> set s" by (rule set_dropWhileD)
qed

subsection \<open>Collapsing blanks\<close>

lemma collapse_hspace_Nil_iff [simp]: "collapse_hspace s = [] \<longleftrightarrow> s = []"
  by (cases s; cases "hspace (hd s)") (simp_all add: collapse_hspace_hit collapse_hspace_miss)

lemma hd_collapse_hspace:
  "s \<noteq> [] \<Longrightarrow> hd (collapse_hspace s) = (if hspace (hd s) then SP else hd s)"
  by (cases s) (simp_all add: collapse_hspace_hit collapse_hspace_miss)

lemma collapse_hspace_only_SP: "c \<in> set (collapse_hspace s) \<Longrightarrow> hspace c \<Longrightarrow> c = SP"
  by (induction s rule: collapse_hspace_induct)
     (auto simp: collapse_hspace_hit collapse_hspace_miss)

lemma collapse_hspace_no_pair:
  "successively (\<lambda>x y. \<not> (hspace x \<and> hspace y)) (collapse_hspace s)"
proof (induction s rule: collapse_hspace_induct)
  case Nil
  then show ?case by simp
next
  case (hit c cs)
  define d where "d = dropWhile hspace cs"
  have "d \<noteq> [] \<Longrightarrow> \<not> hspace (hd d)"
    unfolding d_def by (rule hd_dropWhile)
  then have "d \<noteq> [] \<Longrightarrow> \<not> hspace (hd (collapse_hspace d))"
    by (simp add: hd_collapse_hspace)
  moreover have "successively (\<lambda>x y. \<not> (hspace x \<and> hspace y)) (collapse_hspace d)"
    using hit.IH by (simp add: d_def)
  ultimately have "successively (\<lambda>x y. \<not> (hspace x \<and> hspace y)) (SP # collapse_hspace d)"
    by (auto simp: successively_Cons)
  then show ?case
    using hit(1) by (simp add: collapse_hspace_hit d_def)
next
  case (miss c cs)
  then show ?case
    by (auto simp: collapse_hspace_miss successively_Cons)
qed

subsection \<open>Blanks before a line feed\<close>

lemma strip_blanks_lf_Nil_iff [simp]: "strip_blanks_lf s = [] \<longleftrightarrow> s = []"
proof (cases s)
  case Nil
  then show ?thesis by simp
next
  case (Cons c cs)
  then show ?thesis
    by (cases "sp_tab c \<and> (\<exists>rest. dropWhile sp_tab cs = LF # rest)")
       (auto simp: strip_blanks_lf_hit strip_blanks_lf_miss')
qed

lemma hd_strip_blanks_lf:
  "s \<noteq> [] \<Longrightarrow> hd (strip_blanks_lf s) = LF \<or> hd (strip_blanks_lf s) = hd s"
proof (cases s)
  case Nil
  then show "s \<noteq> [] \<Longrightarrow> ?thesis" by simp
next
  case (Cons c cs)
  then show ?thesis
    by (cases "sp_tab c \<and> (\<exists>rest. dropWhile sp_tab cs = LF # rest)")
       (auto simp: strip_blanks_lf_hit strip_blanks_lf_miss')
qed

lemma hd_strip_blanks_lf_LF:
  assumes "s \<noteq> []" "hd (strip_blanks_lf s) = LF"
  shows "\<exists>rest. dropWhile sp_tab s = LF # rest"
proof (cases s)
  case Nil
  with assms show ?thesis by simp
next
  case (Cons c cs)
  show ?thesis
  proof (cases "sp_tab c \<and> (\<exists>rest. dropWhile sp_tab cs = LF # rest)")
    case True
    then show ?thesis using Cons by auto
  next
    case False
    then have "c = LF" using assms Cons by (simp add: strip_blanks_lf_miss')
    then show ?thesis using Cons by simp
  qed
qed

lemma successively_suffix: "successively R (xs @ ys) \<Longrightarrow> successively R ys"
  by (simp add: successively_append_iff)

lemma successively_prefix: "successively R (xs @ ys) \<Longrightarrow> successively R xs"
  by (simp add: successively_append_iff)

lemma strip_blanks_lf_successively:
  assumes lf: "\<And>x. R x LF"
  shows "successively R s \<Longrightarrow> successively R (strip_blanks_lf s)"
proof (induction s rule: strip_blanks_lf_induct)
  case Nil
  then show ?case by simp
next
  case (hit c cs rest)
  have "c # cs = (c # takeWhile sp_tab cs) @ LF # rest"
    using hit(2) takeWhile_dropWhile_id[of sp_tab cs] by simp
  with hit.prems have tail: "successively R (LF # rest)"
    using successively_suffix by metis
  then have "successively R rest" by (auto simp: successively_Cons)
  with hit.IH have "successively R (strip_blanks_lf rest)" by simp
  moreover have "rest \<noteq> [] \<Longrightarrow> R LF (hd (strip_blanks_lf rest))"
    using tail hd_strip_blanks_lf[of rest] lf by (auto simp: successively_Cons)
  ultimately show ?case
    using hit(1,2) by (auto simp: strip_blanks_lf_hit successively_Cons)
next
  case (miss c cs)
  then have "successively R (strip_blanks_lf cs)" by (auto simp: successively_Cons)
  moreover have "cs \<noteq> [] \<Longrightarrow> R c (hd (strip_blanks_lf cs))"
    using miss.prems hd_strip_blanks_lf[of cs] lf by (auto simp: successively_Cons)
  ultimately show ?case
    using miss(1) by (auto simp: strip_blanks_lf_miss' successively_Cons)
qed

lemma strip_blanks_lf_no_blank_lf:
  "successively (\<lambda>x y. \<not> (sp_tab x \<and> y = LF)) (strip_blanks_lf s)"
proof (induction s rule: strip_blanks_lf_induct)
  case Nil
  then show ?case by simp
next
  case (hit c cs rest)
  then show ?case by (auto simp: strip_blanks_lf_hit successively_Cons)
next
  case (miss c cs)
  have "\<not> (sp_tab c \<and> hd (strip_blanks_lf cs) = LF)" if "cs \<noteq> []"
  proof
    assume a: "sp_tab c \<and> hd (strip_blanks_lf cs) = LF"
    with that obtain rest where "dropWhile sp_tab cs = LF # rest"
      using hd_strip_blanks_lf_LF by blast
    with a miss(1) show False by blast
  qed
  with miss show ?case
    by (auto simp: strip_blanks_lf_miss' successively_Cons)
qed

subsection \<open>Runs of line feeds\<close>

lemma collapse_lf_Nil_iff [simp]: "collapse_lf s = [] \<longleftrightarrow> s = []"
  by (cases s; cases "hd s = LF \<and> 2 \<le> length (takeWhile (\<lambda>x. x = LF) (tl s))")
     (auto simp: collapse_lf_hit collapse_lf_miss)

lemma hd_collapse_lf: "s \<noteq> [] \<Longrightarrow> hd (collapse_lf s) = hd s"
  by (cases s; cases "hd s = LF \<and> 2 \<le> length (takeWhile (\<lambda>x. x = LF) (tl s))")
     (auto simp: collapse_lf_hit collapse_lf_miss)

lemma collapse_lf_successively:
  "successively R s \<Longrightarrow> successively R (collapse_lf s)"
proof (induction s rule: collapse_lf_induct)
  case Nil
  then show ?case by simp
next
  case (hit cs)
  define run where "run = takeWhile (\<lambda>x. x = LF) cs"
  define d where "d = dropWhile (\<lambda>x. x = LF) cs"
  have cs: "cs = run @ d" by (simp add: run_def d_def)
  have ne: "run \<noteq> []" using hit(1) by (auto simp: run_def)
  have all: "\<forall>x\<in>set run. x = LF"
    unfolding run_def by (auto dest: set_takeWhileD)
  have "last run = LF" "hd run = LF"
    using ne all last_in_set[OF ne] hd_in_set[OF ne] by blast+
  with hit.prems ne have "R LF LF" "successively R d" "d \<noteq> [] \<Longrightarrow> R LF (hd d)"
    unfolding cs by (auto simp: successively_Cons successively_append_iff)
  moreover have "successively R (collapse_lf d)"
    using hit.IH \<open>successively R d\<close> by (simp add: d_def)
  ultimately have "successively R (LF # LF # collapse_lf d)"
    by (cases "d = []") (simp_all add: successively_Cons hd_collapse_lf)
  then show ?case
    using hit(1) by (simp add: collapse_lf_hit d_def)
next
  case (miss c cs)
  then show ?case
    by (auto simp: collapse_lf_miss successively_Cons hd_collapse_lf)
qed

lemma lf_run_collapse_lf:
  "length (takeWhile (\<lambda>x. x = LF) (collapse_lf s)) = min 2 (length (takeWhile (\<lambda>x. x = LF) s))"
proof (induction s rule: collapse_lf_induct)
  case Nil
  then show ?case by simp
next
  case (hit cs)
  let ?d = "dropWhile (\<lambda>x. x = LF) cs"
  have "?d \<noteq> [] \<Longrightarrow> hd ?d \<noteq> LF" by (rule hd_dropWhile)
  then have "takeWhile (\<lambda>x. x = LF) (collapse_lf ?d) = []"
    by (cases "?d = []") (simp_all add: takeWhile_eq_Nil_iff hd_collapse_lf)
  then show ?case using hit(1) by (simp add: collapse_lf_hit)
next
  case (miss c cs)
  then show ?case by (auto simp: collapse_lf_miss)
qed

lemma collapse_lf_nl3_free: "nl3_free (collapse_lf s)"
proof (induction s rule: collapse_lf_induct)
  case Nil
  then show ?case by simp
next
  case (hit cs)
  let ?d = "dropWhile (\<lambda>x. x = LF) cs"
  have "?d \<noteq> [] \<Longrightarrow> hd ?d \<noteq> LF" by (rule hd_dropWhile)
  then have "takeWhile (\<lambda>x. x = LF) (collapse_lf ?d) = []"
    by (cases "?d = []") (simp_all add: takeWhile_eq_Nil_iff hd_collapse_lf)
  then show ?case using hit by (simp add: collapse_lf_hit)
next
  case (miss c cs)
  then show ?case by (auto simp: collapse_lf_miss lf_run_collapse_lf)
qed

lemma nl3_free_fixed: "nl3_free s \<Longrightarrow> collapse_lf s = s"
  by (induction s) (auto simp: collapse_lf_miss)

subsection \<open>\<^verbatim>\<open>trim\<close>\<close>

lemma rev_split: "t = rev (dropWhile P (rev t)) @ rev (takeWhile P (rev t))"
proof -
  have "rev t = takeWhile P (rev t) @ dropWhile P (rev t)" by simp
  then have "rev (rev t) = rev (takeWhile P (rev t) @ dropWhile P (rev t))"
    by (rule arg_cong)
  then show ?thesis by (simp only: rev_rev_ident rev_append)
qed

lemma trim_decomp: "\<exists>a b. s = a @ trim s @ b \<and> (\<forall>c\<in>set a. js_space c) \<and> (\<forall>c\<in>set b. js_space c)"
proof -
  define t where "t = dropWhile js_space s"
  have 1: "s = takeWhile js_space s @ t" by (simp add: t_def)
  have 2: "t = trim s @ rev (takeWhile js_space (rev t))"
    unfolding trim_def t_def by (rule rev_split)
  have "s = takeWhile js_space s @ trim s @ rev (takeWhile js_space (rev t))"
    using 1 2 by simp
  moreover have "\<forall>c\<in>set (takeWhile js_space s). js_space c"
    by (auto dest: set_takeWhileD)
  moreover have "\<forall>c\<in>set (rev (takeWhile js_space (rev t))). js_space c"
    by (auto dest: set_takeWhileD)
  ultimately show ?thesis by blast
qed

lemma trim_ends:
  assumes "trim s \<noteq> []"
  shows "\<not> js_space (hd (trim s))" and "\<not> js_space (last (trim s))"
proof -
  define t where "t = dropWhile js_space s"
  define u where "u = dropWhile js_space (rev t)"
  have tr: "trim s = rev u" by (simp add: trim_def t_def u_def)
  then have u: "u \<noteq> []" using assms by simp
  then have "\<not> js_space (hd u)" unfolding u_def by (rule hd_dropWhile)
  then show "\<not> js_space (last (trim s))" using u by (simp add: tr last_rev)
  have t: "t = rev u @ rev (takeWhile js_space (rev t))"
    unfolding u_def by (rule rev_split)
  then have "t \<noteq> []" using u by auto
  then have "\<not> js_space (hd t)" unfolding t_def by (rule hd_dropWhile)
  moreover have "hd t = hd (rev u)" using t u by (metis hd_append2 rev_is_Nil_conv)
  ultimately show "\<not> js_space (hd (trim s))" by (simp add: tr)
qed

lemma trim_id: "s = [] \<or> (\<not> js_space (hd s) \<and> \<not> js_space (last s)) \<Longrightarrow> trim s = s"
proof (cases "s = []")
  case True
  then show ?thesis by (simp add: trim_def)
next
  case False
  assume "s = [] \<or> (\<not> js_space (hd s) \<and> \<not> js_space (last s))"
  with False have h: "\<not> js_space (hd s)" and l: "\<not> js_space (last s)" by simp_all
  have 1: "dropWhile js_space s = s" using h by (simp add: dropWhile_eq_self_iff)
  have "hd (rev s) = last s" using False by (simp add: hd_rev)
  then have "dropWhile js_space (rev s) = rev s" using l by (simp add: dropWhile_eq_self_iff)
  then show ?thesis by (simp add: trim_def 1)
qed

lemma trim_Nil_iff: "trim s = [] \<longleftrightarrow> (\<forall>c\<in>set s. js_space c)"
proof
  assume "trim s = []"
  with trim_decomp[of s] show "\<forall>c\<in>set s. js_space c" by (metis append_Nil set_append UnE)
next
  assume a: "\<forall>c\<in>set s. js_space c"
  show "trim s = []"
  proof (rule ccontr)
    assume ne: "trim s \<noteq> []"
    then have "hd (trim s) \<in> set s" using set_trim[of s] hd_in_set by blast
    with a trim_ends(1)[OF ne] show False by blast
  qed
qed

lemma trim_successively: "successively R s \<Longrightarrow> successively R (trim s)"
proof -
  assume a: "successively R s"
  obtain p q where "s = p @ trim s @ q" using trim_decomp by blast
  with a have "successively R (p @ trim s @ q)" by simp
  then show ?thesis by (simp add: successively_append_iff)
qed

subsection \<open>Three line feeds in a row\<close>

lemma lf_run_append_le:
  "length (takeWhile (\<lambda>x. x = LF) a) \<le> length (takeWhile (\<lambda>x. x = LF) (a @ b))"
  by (induction a) auto

lemma nl3_free_append: "nl3_free (a @ b) \<Longrightarrow> nl3_free a \<and> nl3_free b"
proof (induction a)
  case Nil
  then show ?case by simp
next
  case (Cons c a)
  then show ?case
    using lf_run_append_le[of a b] by auto
qed

lemma nl3_free_no_lf: "LF \<notin> set s \<Longrightarrow> nl3_free s"
  by (induction s) auto

lemma nl3_free_skip_line: "LF \<notin> set a \<Longrightarrow> nl3_free (a @ LF # b) = nl3_free (LF # b)"
proof (induction a)
  case Nil
  then show ?case by simp
next
  case (Cons c a)
  then show ?case by auto
qed

lemma trim_nl3_free: "nl3_free s \<Longrightarrow> nl3_free (trim s)"
proof -
  assume a: "nl3_free s"
  obtain p q where "s = p @ trim s @ q" using trim_decomp by blast
  with a have "nl3_free (p @ trim s @ q)" by simp
  then show ?thesis using nl3_free_append by blast
qed

subsection \<open>Line by line\<close>

lemma split_lf_no_lf: "LF \<notin> set a \<Longrightarrow> split_lf a = [a]"
  by (induction a) auto

lemma split_lf_line: "LF \<notin> set a \<Longrightarrow> split_lf (a @ LF # b) = a # split_lf b"
  by (induction a) auto

lemma split_lf_not_Nil [simp]: "split_lf s \<noteq> []"
  by (induction s) (auto split: list.splits)

lemma join_lf_Cons: "ls \<noteq> [] \<Longrightarrow> join_lf (l # ls) = l @ LF # join_lf ls"
  by (cases ls) auto

lemma trim_lines_last: "LF \<notin> set a \<Longrightarrow> trim_lines a = trim a"
  by (simp add: trim_lines_def split_lf_no_lf)

lemma trim_lines_line: "LF \<notin> set a \<Longrightarrow> trim_lines (a @ LF # b) = trim a @ LF # trim_lines b"
  by (simp add: trim_lines_def split_lf_line join_lf_Cons)

lemma lines_induct [case_names last line]:
  assumes "\<And>a. LF \<notin> set a \<Longrightarrow> P a"
    and "\<And>a b. LF \<notin> set a \<Longrightarrow> P b \<Longrightarrow> P (a @ LF # b)"
  shows "P s"
proof (induction s rule: length_induct)
  case (1 s)
  define a where "a = takeWhile (\<lambda>x. x \<noteq> LF) s"
  define r where "r = dropWhile (\<lambda>x. x \<noteq> LF) s"
  have s: "s = a @ r" by (simp add: a_def r_def)
  have a: "LF \<notin> set a" unfolding a_def by (auto dest: set_takeWhileD)
  show ?case
  proof (cases r)
    case Nil
    then show ?thesis using s a assms(1) by simp
  next
    case (Cons c b)
    have "r \<noteq> [] \<Longrightarrow> \<not> hd r \<noteq> LF" unfolding r_def by (rule hd_dropWhile)
    then have "c = LF" using Cons by simp
    then have s': "s = a @ LF # b" using s Cons by simp
    then have "length b < length s" by simp
    then have "P b" using 1 by blast
    then show ?thesis using s' a assms(2) by simp
  qed
qed

lemma plain_blanks_subset: "plain_blanks s \<Longrightarrow> set t \<subseteq> set s \<union> {SP, LF} \<Longrightarrow> plain_blanks t"
  by (auto simp: plain_blanks_def)

lemma plain_blanks_append: "plain_blanks (a @ b) \<longleftrightarrow> plain_blanks a \<and> plain_blanks b"
  by (auto simp: plain_blanks_def)

lemma lf_run_no_lf: "LF \<notin> set s \<Longrightarrow> takeWhile (\<lambda>x. x = LF) s = []"
  by (cases s) auto

lemma set_trim_lines: "set (trim_lines s) \<subseteq> set s"
proof (induction s rule: lines_induct)
  case (last a)
  then show ?case using set_trim[of a] by (simp add: trim_lines_last)
next
  case (line a b)
  then show ?case using set_trim[of a] by (auto simp: trim_lines_line)
qed

lemma trim_no_lf: "LF \<notin> set a \<Longrightarrow> LF \<notin> set (trim a)"
  using set_trim[of a] by blast

lemma hd_trim_lines:
  "trim_lines s \<noteq> [] \<Longrightarrow> hd (trim_lines s) = LF \<or> \<not> js_space (hd (trim_lines s))"
proof (induction s rule: lines_induct)
  case (last a)
  then show ?case using trim_ends(1)[of a] by (simp add: trim_lines_last)
next
  case (line a b)
  show ?case
    using trim_ends(1)[of a] line(1)
    by (cases "trim a = []") (simp_all add: trim_lines_line)
qed

lemma trimmed_line_tidy:
  assumes "LF \<notin> set a" "successively (\<lambda>x y. \<not> (x = SP \<and> y = SP)) a"
  shows "successively tidy_pair (trim a)"
proof -
  have "successively (\<lambda>x y. \<not> (x = SP \<and> y = SP)) (trim a)"
    using assms(2) by (rule trim_successively)
  then show ?thesis
  proof (rule successively_mono)
    fix x y assume "x \<in> set (trim a)" "y \<in> set (trim a)" "\<not> (x = SP \<and> y = SP)"
    then show "tidy_pair x y"
      using trim_no_lf[OF assms(1)] by (auto simp: tidy_pair_def)
  qed
qed

lemma trim_lines_tidy:
  "successively (\<lambda>x y. \<not> (x = SP \<and> y = SP)) s \<Longrightarrow> successively tidy_pair (trim_lines s)"
proof (induction s rule: lines_induct)
  case (last a)
  then show ?case by (simp add: trim_lines_last trimmed_line_tidy)
next
  case (line a b)
  have a: "successively (\<lambda>x y. \<not> (x = SP \<and> y = SP)) a"
    and b: "successively (\<lambda>x y. \<not> (x = SP \<and> y = SP)) b"
    using line.prems by (auto simp: successively_append_iff successively_Cons)
  have 1: "successively tidy_pair (trim a)"
    using line(1) a by (rule trimmed_line_tidy)
  have 2: "successively tidy_pair (trim_lines b)" using line.IH b by simp
  have 3: "trim a \<noteq> [] \<Longrightarrow> tidy_pair (last (trim a)) LF"
    using trim_ends(2)[of a] by (auto simp: tidy_pair_def)
  have 4: "trim_lines b \<noteq> [] \<Longrightarrow> tidy_pair LF (hd (trim_lines b))"
    using hd_trim_lines[of b] by (auto simp: tidy_pair_def)
  have "successively tidy_pair (LF # trim_lines b)"
    using 2 4 by (auto simp: successively_Cons)
  then have "successively tidy_pair (trim a @ LF # trim_lines b)"
    using 1 3 by (cases "trim a = []") (simp_all add: successively_append_iff)
  then show ?case unfolding trim_lines_line[OF line(1)] .
qed

lemma blank_line_empty:
  assumes lf: "LF \<notin> set a" and pb: "plain_blanks (a @ LF # b)"
    and ok: "successively (\<lambda>x y. \<not> (x = SP \<and> y = LF)) (a @ LF # b)"
  shows "trim a = [] \<longleftrightarrow> a = []"
proof
  assume t: "trim a = []"
  show "a = []"
  proof (rule ccontr)
    assume ne: "a \<noteq> []"
    have "js_space (last a)" using t ne by (simp add: trim_Nil_iff)
    moreover have "last a \<in> set a" using ne by simp
    ultimately have "last a = SP"
      using pb lf by (auto simp: plain_blanks_def)
    moreover have "\<not> (last a = SP \<and> LF = LF)"
      using ok ne by (simp add: successively_append_iff)
    ultimately show False by simp
  qed
next
  assume "a = []"
  then show "trim a = []" by (simp add: trim_def)
qed

lemma lf_run_trim_lines:
  "plain_blanks s \<Longrightarrow> successively (\<lambda>x y. \<not> (x = SP \<and> y = LF)) s \<Longrightarrow>
   length (takeWhile (\<lambda>x. x = LF) (trim_lines s)) = length (takeWhile (\<lambda>x. x = LF) s)"
proof (induction s rule: lines_induct)
  case (last a)
  then show ?case
    by (simp add: trim_lines_last lf_run_no_lf trim_no_lf)
next
  case (line a b)
  have b: "plain_blanks b" "successively (\<lambda>x y. \<not> (x = SP \<and> y = LF)) b"
    using line.prems by (auto simp: plain_blanks_append plain_blanks_def successively_append_iff successively_Cons)
  have e: "trim a = [] \<longleftrightarrow> a = []"
    using line(1) line.prems by (rule blank_line_empty)
  show ?case
  proof (cases "a = []")
    case True
    then have "trim a = []" using e by simp
    then show ?thesis
      unfolding trim_lines_line[OF line(1)] using True line.IH b by simp
  next
    case False
    then have ne: "trim a \<noteq> []" using e by simp
    have "hd a \<noteq> LF" using False line(1) hd_in_set by metis
    then have 1: "takeWhile (\<lambda>x. x = LF) (a @ LF # b) = []"
      using False by (cases a) auto
    have "hd (trim a) \<noteq> LF" using trim_ends(1)[OF ne] by auto
    then have 2: "takeWhile (\<lambda>x. x = LF) (trim a @ LF # trim_lines b) = []"
      using ne by (cases "trim a") auto
    show ?thesis unfolding trim_lines_line[OF line(1)] using 1 2 by simp
  qed
qed

lemma trim_lines_nl3_free:
  "plain_blanks s \<Longrightarrow> successively (\<lambda>x y. \<not> (x = SP \<and> y = LF)) s \<Longrightarrow> nl3_free s \<Longrightarrow>
   nl3_free (trim_lines s)"
proof (induction s rule: lines_induct)
  case (last a)
  then show ?case by (simp add: trim_lines_last nl3_free_no_lf trim_no_lf)
next
  case (line a b)
  have b: "plain_blanks b" "successively (\<lambda>x y. \<not> (x = SP \<and> y = LF)) b"
    using line.prems by (auto simp: plain_blanks_append plain_blanks_def successively_append_iff successively_Cons)
  have "nl3_free (LF # b)" using line.prems(3) line(1) by (simp add: nl3_free_skip_line)
  then have n: "\<not> 2 \<le> length (takeWhile (\<lambda>x. x = LF) b)" "nl3_free b" by simp_all
  have "nl3_free (trim_lines b)" using line.IH b n by simp
  moreover have "\<not> 2 \<le> length (takeWhile (\<lambda>x. x = LF) (trim_lines b))"
    using n(1) b by (simp add: lf_run_trim_lines)
  ultimately have "nl3_free (LF # trim_lines b)" by simp
  then have "nl3_free (trim a @ LF # trim_lines b)"
    using trim_no_lf[OF line(1)] by (simp add: nl3_free_skip_line)
  then show ?case unfolding trim_lines_line[OF line(1)] .
qed

subsection \<open>A text in normal form is left as it is\<close>

lemma strip_zwsp_fixed: "ZWSP \<notin> set s \<Longrightarrow> strip_zwsp s = s"
  by (auto simp: strip_zwsp_eq filter_id_conv)

lemma collapse_hspace_fixed:
  "\<forall>c\<in>set s. hspace c \<longrightarrow> c = SP \<Longrightarrow> successively (\<lambda>x y. \<not> (x = SP \<and> y = SP)) s \<Longrightarrow>
   collapse_hspace s = s"
proof (induction s)
  case Nil
  then show ?case by simp
next
  case (Cons c cs)
  have ih: "collapse_hspace cs = cs"
    using Cons by (auto simp: successively_Cons)
  show ?case
  proof (cases "hspace c")
    case False
    then show ?thesis by (simp add: collapse_hspace_miss ih)
  next
    case True
    then have c: "c = SP" using Cons.prems(1) by simp
    have "cs = [] \<or> \<not> hspace (hd cs)"
    proof (cases cs)
      case Nil
      then show ?thesis by simp
    next
      case (Cons d ds)
      then have "d \<noteq> SP" using Cons.prems(2) c by simp
      moreover have "hspace d \<longrightarrow> d = SP" using Cons.prems(1) Cons by simp
      ultimately show ?thesis using Cons by auto
    qed
    then have "dropWhile hspace cs = cs" by (simp add: dropWhile_eq_self_iff)
    then show ?thesis using True c by (simp add: collapse_hspace_hit ih)
  qed
qed

lemma strip_blanks_lf_fixed:
  "\<forall>c\<in>set s. sp_tab c \<longrightarrow> c = SP \<Longrightarrow> successively tidy_pair s \<Longrightarrow> strip_blanks_lf s = s"
proof (induction s)
  case Nil
  then show ?case by simp
next
  case (Cons c cs)
  have ih: "strip_blanks_lf cs = cs"
    using Cons by (auto simp: successively_Cons)
  have "\<not> (sp_tab c \<and> (\<exists>rest. dropWhile sp_tab cs = LF # rest))"
  proof
    assume a: "sp_tab c \<and> (\<exists>rest. dropWhile sp_tab cs = LF # rest)"
    then obtain rest where r: "dropWhile sp_tab cs = LF # rest" by blast
    from a have c: "c = SP" using Cons.prems(1) by simp
    from r obtain d ds where cs: "cs = d # ds" by (cases cs) auto
    then have "tidy_pair SP d" using Cons.prems(2) c by simp
    then have d: "d \<noteq> SP" "d \<noteq> LF" by (auto simp: tidy_pair_def)
    moreover have "sp_tab d \<longrightarrow> d = SP" using Cons.prems(1) cs by simp
    ultimately have "\<not> sp_tab d" by blast
    then have "dropWhile sp_tab cs = cs" using cs by simp
    with r cs d show False by simp
  qed
  then show ?case by (simp add: strip_blanks_lf_miss' ih)
qed

lemma plain_line_trimmed:
  assumes "plain_blanks a" "LF \<notin> set a" "a \<noteq> [] \<Longrightarrow> hd a \<noteq> SP \<and> last a \<noteq> SP"
  shows "trim a = a"
proof (rule trim_id, cases "a = []")
  case True
  then show "a = [] \<or> \<not> js_space (hd a) \<and> \<not> js_space (last a)" by simp
next
  case False
  then have "hd a \<in> set a" "last a \<in> set a" by simp_all
  then have "js_space (hd a) \<longrightarrow> hd a = SP" "js_space (last a) \<longrightarrow> last a = SP"
    using assms(1,2) by (auto simp: plain_blanks_def)
  then show "a = [] \<or> \<not> js_space (hd a) \<and> \<not> js_space (last a)"
    using assms(3) False by blast
qed

lemma trim_lines_fixed:
  "plain_blanks s \<Longrightarrow> successively tidy_pair s \<Longrightarrow> (s \<noteq> [] \<longrightarrow> hd s \<noteq> SP \<and> last s \<noteq> SP) \<Longrightarrow>
   trim_lines s = s"
proof (induction s rule: lines_induct)
  case (last a)
  then show ?case by (simp add: trim_lines_last plain_line_trimmed)
next
  case (line a b)
  have pa: "plain_blanks a" and pb: "plain_blanks b"
    using line.prems(1) by (auto simp: plain_blanks_append plain_blanks_def)
  have sb: "successively tidy_pair (LF # b)" and la: "a \<noteq> [] \<Longrightarrow> tidy_pair (last a) LF"
    using line.prems(2) by (auto simp: successively_append_iff)
  have "a \<noteq> [] \<Longrightarrow> hd a \<noteq> SP \<and> last a \<noteq> SP"
  proof -
    assume ne: "a \<noteq> []"
    then have "hd (a @ LF # b) = hd a" by simp
    then have "hd a \<noteq> SP" using line.prems(3) by simp
    moreover have "last a \<noteq> SP" using la[OF ne] by (auto simp: tidy_pair_def)
    ultimately show ?thesis by simp
  qed
  then have ta: "trim a = a" using pa line(1) by (intro plain_line_trimmed)
  have "b \<noteq> [] \<longrightarrow> hd b \<noteq> SP \<and> last b \<noteq> SP"
  proof
    assume ne: "b \<noteq> []"
    then have "tidy_pair LF (hd b)" using sb by (auto simp: successively_Cons)
    then have "hd b \<noteq> SP" by (auto simp: tidy_pair_def)
    moreover have "last (a @ LF # b) = last b" using ne by simp
    then have "last b \<noteq> SP" using line.prems(3) by simp
    ultimately show "hd b \<noteq> SP \<and> last b \<noteq> SP" by simp
  qed
  moreover have "successively tidy_pair b" using sb by (auto simp: successively_Cons)
  ultimately have "trim_lines b = b" using line.IH pb by simp
  then show ?case unfolding trim_lines_line[OF line(1)] using ta by simp
qed

lemma normal_form_fixed: "normal_form s \<Longrightarrow> cleanText s = s"
proof -
  assume nf: "normal_form s"
  then have pb: "plain_blanks s" and tp: "successively tidy_pair s" and n3: "nl3_free s"
    and ends: "s = [] \<or> (\<not> js_space (hd s) \<and> \<not> js_space (last s))"
    by (simp_all add: normal_form_def)
  have 1: "strip_zwsp s = s"
    using pb by (intro strip_zwsp_fixed) (auto simp: plain_blanks_def)
  have hs: "\<forall>c\<in>set s. hspace c \<longrightarrow> c = SP"
    using pb by (auto simp: plain_blanks_def hspace_def)
  have "successively (\<lambda>x y. \<not> (x = SP \<and> y = SP)) s"
    using tp by (rule successively_mono) (simp add: tidy_pair_def)
  then have 2: "collapse_hspace s = s" using hs by (intro collapse_hspace_fixed)
  have "\<forall>c\<in>set s. sp_tab c \<longrightarrow> c = SP" using hs sp_tab_hspace by blast
  then have 3: "strip_blanks_lf s = s" using tp by (intro strip_blanks_lf_fixed)
  have 4: "collapse_lf s = s" using n3 by (rule nl3_free_fixed)
  have "s \<noteq> [] \<longrightarrow> hd s \<noteq> SP \<and> last s \<noteq> SP" using ends by auto
  then have 5: "trim_lines s = s" using pb tp by (intro trim_lines_fixed)
  have 6: "trim s = s" using ends by (rule trim_id)
  show ?thesis by (simp add: cleanText_def 1 2 3 4 5 6)
qed

subsection \<open>The result is in normal form when the input has no carriage return\<close>

lemma cleanText_normal_form:
  assumes cr: "CR \<notin> set s"
  shows "normal_form (cleanText s)"
proof (cases "s = []")
  case True
  then show ?thesis by (simp add: cleanText_def normal_form_def plain_blanks_def)
next
  case False
  define t1 where "t1 = strip_zwsp s"
  define t2 where "t2 = collapse_hspace t1"
  define t3 where "t3 = strip_blanks_lf t2"
  define t4 where "t4 = collapse_lf t3"
  define t5 where "t5 = trim_lines t4"
  define t6 where "t6 = trim t5"
  have res: "cleanText s = t6"
    using False by (simp add: cleanText_def t1_def t2_def t3_def t4_def t5_def t6_def)
  have s1: "ZWSP \<notin> set t1" "CR \<notin> set t1"
    using cr by (auto simp: t1_def set_strip_zwsp)
  have p2: "plain_blanks t2"
    unfolding plain_blanks_def
  proof (intro ballI conjI impI)
    fix c assume c: "c \<in> set t2"
    then have m: "c \<in> set t1 \<union> {SP}" using set_collapse_hspace[of t1] by (auto simp: t2_def)
    then show "c \<noteq> ZWSP" using s1 by auto
    assume "js_space c"
    then have "hspace c \<or> c = CR \<or> c = LF" by (simp add: js_space_cases)
    moreover have "c \<noteq> CR" using m s1 by auto
    moreover have "hspace c \<Longrightarrow> c = SP"
      using c collapse_hspace_only_SP[of c t1] by (simp add: t2_def)
    ultimately show "c = SP \<or> c = LF" by blast
  qed
  have b2: "successively (\<lambda>x y. \<not> (x = SP \<and> y = SP)) t2"
    unfolding t2_def
    by (rule successively_mono[OF collapse_hspace_no_pair]) auto
  have p3: "plain_blanks t3"
    using p2 set_strip_blanks_lf[of t2] by (auto intro: plain_blanks_subset simp: t3_def)
  have b3: "successively (\<lambda>x y. \<not> (x = SP \<and> y = SP)) t3"
    unfolding t3_def using b2 by (intro strip_blanks_lf_successively) auto
  have c3: "successively (\<lambda>x y. \<not> (x = SP \<and> y = LF)) t3"
    unfolding t3_def
    by (rule successively_mono[OF strip_blanks_lf_no_blank_lf]) auto
  have p4: "plain_blanks t4"
    using p3 set_collapse_lf[of t3] by (auto intro: plain_blanks_subset simp: t4_def)
  have b4: "successively (\<lambda>x y. \<not> (x = SP \<and> y = SP)) t4"
    unfolding t4_def using b3 by (rule collapse_lf_successively)
  have c4: "successively (\<lambda>x y. \<not> (x = SP \<and> y = LF)) t4"
    unfolding t4_def using c3 by (rule collapse_lf_successively)
  have n4: "nl3_free t4" unfolding t4_def by (rule collapse_lf_nl3_free)
  have p5: "plain_blanks t5"
    using p4 set_trim_lines[of t4] by (auto intro: plain_blanks_subset simp: t5_def)
  have r5: "successively tidy_pair t5"
    unfolding t5_def using b4 by (rule trim_lines_tidy)
  have n5: "nl3_free t5"
    unfolding t5_def using p4 c4 n4 by (rule trim_lines_nl3_free)
  have p6: "plain_blanks t6"
    using p5 set_trim[of t5] by (auto intro: plain_blanks_subset simp: t6_def)
  have r6: "successively tidy_pair t6"
    unfolding t6_def using r5 by (rule trim_successively)
  have n6: "nl3_free t6"
    unfolding t6_def using n5 by (rule trim_nl3_free)
  have e6: "t6 = [] \<or> (\<not> js_space (hd t6) \<and> \<not> js_space (last t6))"
    unfolding t6_def using trim_ends[of t5] by blast
  show ?thesis
    unfolding res normal_form_def using p6 r6 n6 e6 by simp
qed

text \<open>
  C5, as the code has it: on a text without carriage return the result is in normal form,
  and a second application changes nothing.
\<close>

theorem cleanText_idempotent_without_CR:
  "CR \<notin> set s \<Longrightarrow> cleanText (cleanText s) = cleanText s"
  by (rule normal_form_fixed) (rule cleanText_normal_form)

theorem cleanText_idempotent_without_CR_witness:
  "CR \<notin> set [0x61, SP, SP, SP, 0x62, TAB, LF, LF, LF, LF, 0x63, SP, SP] \<and>
   cleanText (cleanText [0x61, SP, SP, SP, 0x62, TAB, LF, LF, LF, LF, 0x63, SP, SP]) =
   cleanText [0x61, SP, SP, SP, 0x62, TAB, LF, LF, LF, LF, 0x63, SP, SP]"
proof -
  have h: "CR \<notin> set [0x61, SP, SP, SP, 0x62, TAB, LF, LF, LF, LF, 0x63, SP, SP]"
    by (simp add: CR_def SP_def TAB_def LF_def)
  from h cleanText_idempotent_without_CR[OF h] show ?thesis by blast
qed

text \<open>
  C5 as stated fails: in \<^verbatim>\<open>"a\n\r\n\nb"\<close> no three line feeds are in a row, so none is
  removed; trimming the line that holds the carriage return then leaves three in a row,
  which only a second application collapses.
\<close>

theorem cleanText_not_idempotent_counterexample:
  "cleanText [0x61, LF, CR, LF, LF, 0x62] = [0x61, LF, LF, LF, 0x62] \<and>
   cleanText (cleanText [0x61, LF, CR, LF, LF, 0x62]) = [0x61, LF, LF, 0x62] \<and>
   cleanText (cleanText [0x61, LF, CR, LF, LF, 0x62]) \<noteq> cleanText [0x61, LF, CR, LF, LF, 0x62]"
  by code_simp

subsection \<open>Skipping what a replacement does not match\<close>

lemma collapse_hspace_skip:
  "\<forall>x\<in>set n. \<not> hspace x \<Longrightarrow> collapse_hspace (n @ d) = n @ collapse_hspace d"
  by (induction n) (simp_all add: collapse_hspace_miss)

lemma collapse_lf_skip:
  "\<forall>x\<in>set n. x \<noteq> LF \<Longrightarrow> collapse_lf (n @ d) = n @ collapse_lf d"
  by (induction n) (simp_all add: collapse_lf_miss)

lemma strip_blanks_lf_skip:
  "\<forall>x\<in>set n. \<not> sp_tab x \<Longrightarrow> strip_blanks_lf (n @ d) = n @ strip_blanks_lf d"
  by (induction n) (simp_all add: strip_blanks_lf_miss')

lemma cleanText_no_zwsp: "ZWSP \<notin> set (cleanText s)"
proof (cases "s = []")
  case True
  then show ?thesis by (simp add: cleanText_def)
next
  case False
  have "set (cleanText s) \<subseteq> set (strip_zwsp s) \<union> {SP}"
    using set_trim[of "trim_lines (collapse_lf (strip_blanks_lf (collapse_hspace (strip_zwsp s))))"]
      set_trim_lines[of "collapse_lf (strip_blanks_lf (collapse_hspace (strip_zwsp s)))"]
      set_collapse_lf[of "strip_blanks_lf (collapse_hspace (strip_zwsp s))"]
      set_strip_blanks_lf[of "collapse_hspace (strip_zwsp s)"]
      set_collapse_hspace[of "strip_zwsp s"] False
    by (simp add: cleanText_def)
  then show ?thesis by (auto simp: set_strip_zwsp)
qed

section \<open>Text normalisation: the layout of the result\<close>

subsection \<open>Words and line breaks\<close>

lemma tokens_induct [case_names Nil lf blank word]:
  assumes "P []"
    and "\<And>cs. P cs \<Longrightarrow> P (LF # cs)"
    and "\<And>c cs. js_space c \<Longrightarrow> c \<noteq> LF \<Longrightarrow> P cs \<Longrightarrow> P (c # cs)"
    and "\<And>c cs. \<not> js_space c \<Longrightarrow> P (dropWhile (\<lambda>x. \<not> js_space x) cs) \<Longrightarrow> P (c # cs)"
  shows "P s"
proof (induction s rule: length_induct)
  case (1 s)
  show ?case
  proof (cases s)
    case Nil
    then show ?thesis using assms(1) by simp
  next
    case (Cons c cs)
    have "length (dropWhile (\<lambda>x. \<not> js_space x) cs) < length s"
      using Cons length_dropWhile_le[of "\<lambda>x. \<not> js_space x" cs] by simp
    then have d: "P (dropWhile (\<lambda>x. \<not> js_space x) cs)" using 1 by blast
    have cs: "P cs" using 1 Cons by simp
    show ?thesis
    proof (cases "c = LF")
      case True
      then show ?thesis using Cons cs assms(2) by simp
    next
      case False
      then show ?thesis using Cons cs d assms(3,4) by (cases "js_space c") auto
    qed
  qed
qed

lemma tokens_lf [simp]: "tokens (LF # cs) = Newline # tokens cs"
  by (simp add: tokens.simps(2))

lemma tokens_blank: "js_space c \<Longrightarrow> c \<noteq> LF \<Longrightarrow> tokens (c # cs) = tokens cs"
  by (simp add: tokens.simps(2))

lemma tokens_word_Cons:
  "\<not> js_space c \<Longrightarrow>
   tokens (c # cs) = Word (c # takeWhile (\<lambda>x. \<not> js_space x) cs)
                       # tokens (dropWhile (\<lambda>x. \<not> js_space x) cs)"
  by (auto simp: tokens.simps(2))

lemma tokens_boundary:
  "a = [] \<or> d = [] \<or> js_space (last a) \<or> js_space (hd d) \<Longrightarrow>
   tokens (a @ d) = tokens a @ tokens d"
proof (induction a rule: tokens_induct)
  case Nil
  then show ?case by simp
next
  case (lf cs)
  then show ?case by (cases "cs = []") auto
next
  case (blank c cs)
  then show ?case by (cases "cs = []") (auto simp: tokens_blank)
next
  case (word c cs)
  define n where "n = takeWhile (\<lambda>x. \<not> js_space x) cs"
  define r where "r = dropWhile (\<lambda>x. \<not> js_space x) cs"
  have cs: "cs = n @ r" by (simp add: n_def r_def)
  show ?case
  proof (cases "r = []")
    case True
    then have all: "\<forall>x\<in>set cs. \<not> js_space x" by (simp add: r_def)
    then have "\<not> js_space (last (c # cs))" using word(1) by auto
    with word.prems have d: "d = [] \<or> js_space (hd d)" by auto
    then have "takeWhile (\<lambda>x. \<not> js_space x) d = []" "dropWhile (\<lambda>x. \<not> js_space x) d = d"
      by (cases d; simp)+
    then have 1: "takeWhile (\<lambda>x. \<not> js_space x) (cs @ d) = cs"
      and 2: "dropWhile (\<lambda>x. \<not> js_space x) (cs @ d) = d"
      using all by (simp_all add: takeWhile_append dropWhile_append)
    have 3: "takeWhile (\<lambda>x. \<not> js_space x) cs = cs"
      and 4: "dropWhile (\<lambda>x. \<not> js_space x) cs = []"
      using all by simp_all
    have "tokens ((c # cs) @ d) = Word (c # cs) # tokens d"
      using tokens_word_Cons[OF word(1), of "cs @ d"] by (simp add: 1 2)
    moreover have "tokens (c # cs) = [Word (c # cs)]"
      using tokens_word_Cons[OF word(1), of cs] by (simp add: 3 4)
    ultimately show ?thesis by simp
  next
    case False
    then have ex: "\<exists>x\<in>set cs. \<not> \<not> js_space x" by (auto simp: r_def)
    then have "takeWhile (\<lambda>x. \<not> js_space x) (cs @ d) = n"
      "dropWhile (\<lambda>x. \<not> js_space x) (cs @ d) = r @ d"
      by (auto simp: takeWhile_append dropWhile_append n_def r_def)
    moreover have "last (c # cs) = last r" using False cs by (metis last_ConsR last_appendR append_is_Nil_conv)
    then have "tokens (r @ d) = tokens r @ tokens d"
      using word.IH word.prems False by (auto simp: r_def)
    ultimately show ?thesis
      using tokens_word_Cons[OF word(1), of "cs @ d"] tokens_word_Cons[OF word(1), of cs]
      by (simp add: n_def r_def)
  qed
qed

lemma tokens_drop_blanks:
  "\<forall>c\<in>set p. js_space c \<and> c \<noteq> LF \<Longrightarrow> tokens (p @ x) = tokens x"
  by (induction p) (simp_all add: tokens_blank)

lemma tokens_blanks_append:
  "\<forall>c\<in>set q. js_space c \<and> c \<noteq> LF \<Longrightarrow> tokens (x @ q) = tokens x"
proof -
  assume q: "\<forall>c\<in>set q. js_space c \<and> c \<noteq> LF"
  then have "q = [] \<or> js_space (hd q)" by (cases q) auto
  then have "tokens (x @ q) = tokens x @ tokens q" by (intro tokens_boundary) blast
  moreover have "tokens q = []" using tokens_drop_blanks[OF q, of "[]"] by simp
  ultimately show ?thesis by simp
qed

lemma word_split:
  fixes c :: jschar and cs :: jsstring
  assumes "\<not> js_space c"
  obtains w d where "c # cs = w @ d" and "w \<noteq> []" and "\<forall>x\<in>set w. \<not> js_space x"
    and "d = [] \<or> js_space (hd d)" and "tokens (c # cs) = Word w # tokens d"
    and "length d < length (c # cs)"
proof
  let ?w = "c # takeWhile (\<lambda>x. \<not> js_space x) cs"
  let ?d = "dropWhile (\<lambda>x. \<not> js_space x) cs"
  show "c # cs = ?w @ ?d" by simp
  show "?w \<noteq> []" by simp
  show "\<forall>x\<in>set ?w. \<not> js_space x" using assms(1) by (auto dest: set_takeWhileD)
  have "?d \<noteq> [] \<Longrightarrow> \<not> \<not> js_space (hd ?d)" by (rule hd_dropWhile)
  then show "?d = [] \<or> js_space (hd ?d)" by blast
  show "tokens (c # cs) = Word ?w # tokens ?d"
    using tokens_word_Cons[OF assms(1), of cs] by simp
  show "length ?d < length (c # cs)"
    using length_dropWhile_le[of "\<lambda>x. \<not> js_space x" cs] by simp
qed

lemma tokens_word_run:
  assumes "w \<noteq> []" "\<forall>x\<in>set w. \<not> js_space x" "d = [] \<or> js_space (hd d)"
  shows "tokens (w @ d) = Word w # tokens d"
proof -
  obtain c cs where w: "w = c # cs" using assms(1) by (cases w) auto
  then have c: "\<not> js_space c" and all: "\<forall>x\<in>set cs. \<not> js_space x" using assms(2) by auto
  have "takeWhile (\<lambda>x. \<not> js_space x) d = []" "dropWhile (\<lambda>x. \<not> js_space x) d = d"
    using assms(3) by (cases d; simp)+
  then have "takeWhile (\<lambda>x. \<not> js_space x) (cs @ d) = cs"
    "dropWhile (\<lambda>x. \<not> js_space x) (cs @ d) = d"
    using all by (simp_all add: takeWhile_append dropWhile_append)
  then show ?thesis
    using tokens_word_Cons[OF c, of "cs @ d"] by (simp add: w)
qed

lemma hspace_blank: "hspace c \<Longrightarrow> js_space c \<and> c \<noteq> LF"
  by (simp add: hspace_def)

lemma tokens_collapse_hspace: "tokens (collapse_hspace t) = tokens t"
proof (induction t rule: length_induct)
  case (1 t)
  show ?case
  proof (cases t)
    case Nil
    then show ?thesis by simp
  next
    case (Cons c cs)
    show ?thesis
    proof (cases "js_space c")
      case False
      from word_split[OF False, of cs] obtain w d where td: "c # cs = w @ d" and wn: "w \<noteq> []"
        and ws: "\<forall>x\<in>set w. \<not> js_space x" and dh: "d = [] \<or> js_space (hd d)"
        and tt: "tokens (c # cs) = Word w # tokens d" and dl: "length d < length (c # cs)"
        by blast
      have "\<forall>x\<in>set w. \<not> hspace x" using ws by (auto simp: hspace_def)
      then have 2: "collapse_hspace (w @ d) = w @ collapse_hspace d"
        by (rule collapse_hspace_skip)
      have "collapse_hspace d = [] \<or> js_space (hd (collapse_hspace d))"
        using dh by (cases "d = []") (auto simp: hd_collapse_hspace)
      then have 3: "tokens (w @ collapse_hspace d) = Word w # tokens (collapse_hspace d)"
        using wn ws by (intro tokens_word_run)
      have 4: "tokens (collapse_hspace d) = tokens d"
        using 1 dl Cons by simp
      show ?thesis unfolding Cons td 2 3 4 using tt td by simp
    next
      case True
      show ?thesis
      proof (cases "hspace c")
        case h: True
        define d where "d = dropWhile hspace cs"
        have "length d < length t"
          using Cons length_dropWhile_le[of hspace cs] by (simp add: d_def)
        then have ih: "tokens (collapse_hspace d) = tokens d" using 1 by blast
        have "\<forall>x\<in>set (c # takeWhile hspace cs). js_space x \<and> x \<noteq> LF"
          using h hspace_blank by (auto dest: set_takeWhileD)
        then have "tokens ((c # takeWhile hspace cs) @ d) = tokens d"
          by (rule tokens_drop_blanks)
        then have "tokens t = tokens d" by (simp add: Cons d_def)
        moreover have "tokens (collapse_hspace t) = tokens (collapse_hspace d)"
          using h by (simp add: Cons collapse_hspace_hit d_def tokens_blank)
        ultimately show ?thesis using ih by simp
      next
        case nh: False
        have ih: "tokens (collapse_hspace cs) = tokens cs" using 1 Cons by simp
        show ?thesis
          using nh True ih
          by (cases "c = LF") (simp_all add: Cons collapse_hspace_miss tokens_blank)
      qed
    qed
  qed
qed

lemma sp_tab_blank: "sp_tab c \<Longrightarrow> js_space c \<and> c \<noteq> LF"
  using sp_tab_hspace hspace_blank by blast

lemma tokens_strip_blanks_lf: "tokens (strip_blanks_lf t) = tokens t"
proof (induction t rule: length_induct)
  case (1 t)
  show ?case
  proof (cases t)
    case Nil
    then show ?thesis by simp
  next
    case (Cons c cs)
    show ?thesis
    proof (cases "js_space c")
      case False
      from word_split[OF False, of cs] obtain w d where td: "c # cs = w @ d" and wn: "w \<noteq> []"
        and ws: "\<forall>x\<in>set w. \<not> js_space x" and dh: "d = [] \<or> js_space (hd d)"
        and tt: "tokens (c # cs) = Word w # tokens d" and dl: "length d < length (c # cs)"
        by blast
      have "\<forall>x\<in>set w. \<not> sp_tab x" using ws sp_tab_blank by auto
      then have 2: "strip_blanks_lf (w @ d) = w @ strip_blanks_lf d"
        by (rule strip_blanks_lf_skip)
      have "strip_blanks_lf d = [] \<or> js_space (hd (strip_blanks_lf d))"
        using dh hd_strip_blanks_lf[of d] by (cases "d = []") auto
      then have 3: "tokens (w @ strip_blanks_lf d) = Word w # tokens (strip_blanks_lf d)"
        using wn ws by (intro tokens_word_run)
      have 4: "tokens (strip_blanks_lf d) = tokens d"
        using 1 dl Cons by simp
      show ?thesis unfolding Cons td 2 3 4 using tt td by simp
    next
      case True
      show ?thesis
      proof (cases "sp_tab c \<and> (\<exists>rest. dropWhile sp_tab cs = LF # rest)")
        case hit: True
        then obtain rest where rest: "dropWhile sp_tab cs = LF # rest" by blast
        have "length (dropWhile sp_tab cs) \<le> length cs" by (rule length_dropWhile_le)
        then have "length rest < length t" using rest Cons by simp
        then have ih: "tokens (strip_blanks_lf rest) = tokens rest" using 1 by blast
        have "\<forall>x\<in>set (c # takeWhile sp_tab cs). js_space x \<and> x \<noteq> LF"
          using hit sp_tab_blank by (auto dest: set_takeWhileD)
        then have "tokens ((c # takeWhile sp_tab cs) @ LF # rest) = tokens (LF # rest)"
          by (rule tokens_drop_blanks)
        moreover have "c # cs = (c # takeWhile sp_tab cs) @ LF # rest"
          using rest takeWhile_dropWhile_id[of sp_tab cs] by simp
        ultimately have "tokens t = Newline # tokens rest" by (simp add: Cons)
        moreover have "tokens (strip_blanks_lf t) = Newline # tokens (strip_blanks_lf rest)"
          using hit rest by (simp add: Cons strip_blanks_lf_hit)
        ultimately show ?thesis using ih by simp
      next
        case miss: False
        have ih: "tokens (strip_blanks_lf cs) = tokens cs" using 1 Cons by simp
        have "strip_blanks_lf (c # cs) = c # strip_blanks_lf cs"
          using miss by (rule strip_blanks_lf_miss')
        then show ?thesis
          using True ih by (cases "c = LF") (simp_all add: Cons tokens_blank)
      qed
    qed
  qed
qed

subsection \<open>Runs of line feeds, and the lines\<close>

lemma collapse_lf_triple: "collapse_lf (LF # LF # LF # cs) = collapse_lf (LF # LF # cs)"
proof (cases "\<exists>cs'. cs = LF # cs'")
  case True
  then obtain cs' where cs: "cs = LF # cs'" by blast
  have "collapse_lf (LF # LF # LF # cs) = LF # LF # collapse_lf (dropWhile (\<lambda>x. x = LF) cs)"
    by (simp add: collapse_lf_hit)
  moreover have "collapse_lf (LF # LF # cs) = LF # LF # collapse_lf (dropWhile (\<lambda>x. x = LF) cs)"
    by (simp add: collapse_lf_hit cs)
  ultimately show ?thesis by simp
next
  case False
  then have d: "dropWhile (\<lambda>x. x = LF) cs = cs" and t: "takeWhile (\<lambda>x. x = LF) cs = []"
    by (cases cs; simp)+
  have "collapse_lf (LF # LF # LF # cs) = LF # LF # collapse_lf cs"
    by (simp add: collapse_lf_hit d)
  moreover have "collapse_lf (LF # LF # cs) = LF # LF # collapse_lf cs"
    by (simp add: collapse_lf_miss t)
  ultimately show ?thesis by simp
qed

lemma collapse_lf_single:
  assumes "\<not> (\<exists>cs'. cs = LF # LF # cs')"
  shows "collapse_lf (LF # cs) = LF # collapse_lf cs"
proof -
  have "\<not> 2 \<le> length (takeWhile (\<lambda>x. x = LF) cs)"
  proof (cases cs)
    case Nil
    then show ?thesis by simp
  next
    case (Cons c1 cs1)
    show ?thesis
    proof (cases cs1)
      case Nil
      then show ?thesis using Cons by simp
    next
      case (Cons c2 cs2)
      then show ?thesis using \<open>cs = c1 # cs1\<close> assms by auto
    qed
  qed
  then show ?thesis by (simp add: collapse_lf_miss)
qed

lemma squeeze_newlines_Cons:
  "\<not> (t = Newline \<and> (\<exists>ts'. ts = Newline # Newline # ts')) \<Longrightarrow>
   squeeze_newlines (t # ts) = t # squeeze_newlines ts"
  by (induction "t # ts" arbitrary: t ts rule: squeeze_newlines.induct) auto

lemma tokens_not_newline:
  "successively (\<lambda>x y. \<not> (js_space x \<and> x \<noteq> LF \<and> y = LF)) t \<Longrightarrow> t \<noteq> [] \<Longrightarrow> hd t \<noteq> LF \<Longrightarrow>
   tokens t = [] \<or> hd (tokens t) \<noteq> Newline"
proof (induction t)
  case Nil
  then show ?case by simp
next
  case (Cons c cs)
  show ?case
  proof (cases "js_space c")
    case False
    then show ?thesis using tokens_word_Cons[OF False, of cs] by simp
  next
    case True
    have c: "c \<noteq> LF" using Cons.prems by simp
    show ?thesis
    proof (cases "cs = []")
      case True
      then show ?thesis using \<open>js_space c\<close> c by (simp add: tokens_blank)
    next
      case False
      then have "hd cs \<noteq> LF" "successively (\<lambda>x y. \<not> (js_space x \<and> x \<noteq> LF \<and> y = LF)) cs"
        using Cons.prems(1) True c by (auto simp: successively_Cons)
      then show ?thesis using Cons.IH False True c by (simp add: tokens_blank)
    qed
  qed
qed

lemma tokens_newline_first:
  assumes "successively (\<lambda>x y. \<not> (js_space x \<and> x \<noteq> LF \<and> y = LF)) t"
    and "tokens t = Newline # ts"
  shows "\<exists>cs. t = LF # cs \<and> tokens cs = ts"
proof -
  have ne: "t \<noteq> []" using assms(2) by auto
  have "hd t = LF" using tokens_not_newline[OF assms(1) ne] assms(2) by auto
  then obtain cs where "t = LF # cs" using ne by (cases t) auto
  then show ?thesis using assms(2) by simp
qed

lemma tokens_collapse_lf:
  "successively (\<lambda>x y. \<not> (js_space x \<and> x \<noteq> LF \<and> y = LF)) t \<Longrightarrow>
   tokens (collapse_lf t) = squeeze_newlines (tokens t)"
proof (induction t rule: length_induct)
  case (1 t)
  let ?H = "successively (\<lambda>x y. \<not> (js_space x \<and> x \<noteq> LF \<and> y = LF))"
  show ?case
  proof (cases t)
    case Nil
    then show ?thesis by simp
  next
    case (Cons c cs)
    have Hcs: "?H cs" using 1(2) Cons by (auto simp: successively_Cons)
    show ?thesis
    proof (cases "js_space c")
      case False
      from word_split[OF False, of cs] obtain w d where td: "c # cs = w @ d" and wn: "w \<noteq> []"
        and ws: "\<forall>x\<in>set w. \<not> js_space x" and dh: "d = [] \<or> js_space (hd d)"
        and tt: "tokens (c # cs) = Word w # tokens d" and dl: "length d < length (c # cs)"
        by blast
      have "?H (w @ d)" using 1(2) Cons td by simp
      then have Hd: "?H d" by (rule successively_suffix)
      have "\<forall>x\<in>set w. x \<noteq> LF" using ws by auto
      then have 2: "collapse_lf (w @ d) = w @ collapse_lf d" by (rule collapse_lf_skip)
      have "collapse_lf d = [] \<or> js_space (hd (collapse_lf d))"
        using dh by (cases "d = []") (auto simp: hd_collapse_lf)
      then have 3: "tokens (w @ collapse_lf d) = Word w # tokens (collapse_lf d)"
        using wn ws by (intro tokens_word_run)
      have 4: "tokens (collapse_lf d) = squeeze_newlines (tokens d)"
        using 1(1) dl Cons Hd by simp
      show ?thesis unfolding Cons td 2 3 4 using tt td by simp
    next
      case True
      show ?thesis
      proof (cases "c = LF")
        case False
        have "tokens (collapse_lf cs) = squeeze_newlines (tokens cs)"
          using 1(1) Cons Hcs by simp
        then show ?thesis
          using True False by (simp add: Cons collapse_lf_miss tokens_blank)
      next
        case lf: True
        show ?thesis
        proof (cases "\<exists>cs'. cs = LF # LF # cs'")
          case True
          then obtain cs' where cs: "cs = LF # LF # cs'" by blast
          have "?H (LF # LF # cs')" using Hcs cs by simp
          then have "tokens (collapse_lf (LF # LF # cs')) = squeeze_newlines (tokens (LF # LF # cs'))"
            using 1(1) Cons cs by simp
          then show ?thesis by (simp add: Cons lf cs collapse_lf_triple)
        next
          case False
          have ih: "tokens (collapse_lf cs) = squeeze_newlines (tokens cs)"
            using 1(1) Cons Hcs by simp
          have "\<not> (\<exists>ts'. tokens cs = Newline # Newline # ts')"
          proof
            assume "\<exists>ts'. tokens cs = Newline # Newline # ts'"
            then obtain ts' where a: "tokens cs = Newline # Newline # ts'" by blast
            from tokens_newline_first[OF Hcs a] obtain cs1
              where cs1: "cs = LF # cs1" "tokens cs1 = Newline # ts'" by blast
            have "?H cs1" using Hcs cs1(1) by (auto simp: successively_Cons)
            from tokens_newline_first[OF this cs1(2)] obtain cs2 where "cs1 = LF # cs2" by blast
            with cs1(1) False show False by simp
          qed
          then have "squeeze_newlines (Newline # tokens cs) = Newline # squeeze_newlines (tokens cs)"
            by (intro squeeze_newlines_Cons) simp
          then show ?thesis
            using ih by (simp add: Cons lf collapse_lf_single[OF False])
        qed
      qed
    qed
  qed
qed

lemma tokens_trim_line: "LF \<notin> set a \<Longrightarrow> tokens (trim a) = tokens a"
proof -
  assume lf: "LF \<notin> set a"
  obtain p q where a: "a = p @ trim a @ q" and p: "\<forall>c\<in>set p. js_space c"
    and q: "\<forall>c\<in>set q. js_space c"
    using trim_decomp by blast
  have "set a = set p \<union> set (trim a) \<union> set q" by (subst a) auto
  then have "set p \<subseteq> set a" "set q \<subseteq> set a" by auto
  then have p': "\<forall>c\<in>set p. js_space c \<and> c \<noteq> LF" and q': "\<forall>c\<in>set q. js_space c \<and> c \<noteq> LF"
    using p q lf by auto
  have "tokens (p @ trim a @ q) = tokens (trim a @ q)" using p' by (rule tokens_drop_blanks)
  also have "\<dots> = tokens (trim a)" using q' by (rule tokens_blanks_append)
  finally show ?thesis using a by simp
qed

lemma tokens_line: "tokens (x @ LF # y) = tokens x @ Newline # tokens y"
proof -
  have "tokens (x @ LF # y) = tokens x @ tokens (LF # y)"
    by (rule tokens_boundary) simp
  then show ?thesis by simp
qed

lemma tokens_trim_lines: "tokens (trim_lines t) = tokens t"
proof (induction t rule: lines_induct)
  case (last a)
  then show ?case by (simp add: trim_lines_last tokens_trim_line)
next
  case (line a b)
  show ?case
    unfolding trim_lines_line[OF line(1)] tokens_line
    using line by (simp add: tokens_trim_line)
qed


subsection \<open>The overall trim\<close>

lemma tokens_only_newlines: "\<forall>c\<in>set p. js_space c \<Longrightarrow> \<forall>x\<in>set (tokens p). x = Newline"
proof (induction p)
  case Nil
  then show ?case by simp
next
  case (Cons c p)
  then show ?case by (cases "c = LF") (simp_all add: tokens_blank)
qed

lemma tokens_first_word:
  "s \<noteq> [] \<Longrightarrow> \<not> js_space (hd s) \<Longrightarrow> tokens s \<noteq> [] \<and> hd (tokens s) \<noteq> Newline"
  by (cases s) (auto simp: tokens_word_Cons)

lemma tokens_last_word:
  "s \<noteq> [] \<Longrightarrow> \<not> js_space (last s) \<Longrightarrow> tokens s \<noteq> [] \<and> last (tokens s) \<noteq> Newline"
proof (induction s rule: tokens_induct)
  case Nil
  then show ?case by simp
next
  case (lf cs)
  then show ?case by (cases "cs = []") auto
next
  case (blank c cs)
  then show ?case by (cases "cs = []") (auto simp: tokens_blank)
next
  case (word c cs)
  define d where "d = dropWhile (\<lambda>x. \<not> js_space x) cs"
  have tt: "tokens (c # cs) = Word (c # takeWhile (\<lambda>x. \<not> js_space x) cs) # tokens d"
    using tokens_word_Cons[OF word(1), of cs] by (simp add: d_def)
  show ?case
  proof (cases "d = []")
    case True
    then show ?thesis using tt by simp
  next
    case False
    have "cs = takeWhile (\<lambda>x. \<not> js_space x) cs @ d" by (simp add: d_def)
    then have "last cs = last d" using False by (metis last_appendR)
    moreover have "cs \<noteq> []" using False by (auto simp: d_def)
    ultimately have "last (c # cs) = last d" by simp
    then have "tokens d \<noteq> [] \<and> last (tokens d) \<noteq> Newline"
      using word(2,4) False by (simp add: d_def)
    then show ?thesis using tt by simp
  qed
qed


lemma dropWhile_all_Nil: "\<forall>x\<in>set X. P x \<Longrightarrow> dropWhile P X = []"
  by (induction X) auto

lemma dropWhile_all_prefix: "\<forall>x\<in>set A. P x \<Longrightarrow> dropWhile P (A @ X) = dropWhile P X"
  by (induction A) auto

lemma dropWhile_hd_keep: "X \<noteq> [] \<Longrightarrow> \<not> P (hd X) \<Longrightarrow> dropWhile P (X @ Y) = X @ Y"
  by (cases X) auto

lemma strip_newlines_sandwich:
  assumes A: "\<forall>x\<in>set A. x = Newline" and B: "\<forall>x\<in>set B. x = Newline"
    and M: "M = [] \<or> (hd M \<noteq> Newline \<and> last M \<noteq> Newline)"
  shows "strip_newlines (A @ M @ B) = M"
proof (cases "M = []")
  case True
  have "\<forall>x\<in>set (A @ B). x = Newline" using A B by auto
  then have e: "dropWhile (\<lambda>t. t = Newline) (A @ B) = []" by (rule dropWhile_all_Nil)
  show ?thesis unfolding strip_newlines_def True append_Nil e by simp
next
  case False
  then have h: "hd M \<noteq> Newline" and l: "last M \<noteq> Newline" using M by auto
  have 1: "dropWhile (\<lambda>t. t = Newline) (A @ M @ B) = M @ B"
    using dropWhile_all_prefix[of A "\<lambda>t. t = Newline" "M @ B", OF A]
      dropWhile_hd_keep[of M "\<lambda>t. t = Newline" B, OF False h] by (rule trans)
  have rB: "\<forall>x\<in>set (rev B). x = Newline" using B by simp
  have rM: "rev M \<noteq> []" using False by simp
  have hr: "hd (rev M) \<noteq> Newline" using False l by (simp add: hd_rev)
  have "dropWhile (\<lambda>t. t = Newline) (rev M @ []) = rev M @ []"
    using rM hr by (rule dropWhile_hd_keep)
  then have k: "dropWhile (\<lambda>t. t = Newline) (rev M) = rev M" by (simp only: append_Nil2)
  have 2: "dropWhile (\<lambda>t. t = Newline) (rev B @ rev M) = rev M"
    using dropWhile_all_prefix[of "rev B" "\<lambda>t. t = Newline" "rev M", OF rB] k by (rule trans)
  have "rev (M @ B) = rev B @ rev M" by simp
  then show ?thesis unfolding strip_newlines_def 1 by (simp only: 2 rev_rev_ident)
qed


lemma tokens_trim: "tokens (trim t) = strip_newlines (tokens t)"
proof -
  obtain p q where t: "t = p @ trim t @ q" and p: "\<forall>c\<in>set p. js_space c"
    and q: "\<forall>c\<in>set q. js_space c"
    using trim_decomp by blast
  have "q = [] \<or> js_space (hd q)" using q by (cases q) auto
  then have 1: "tokens (trim t @ q) = tokens (trim t) @ tokens q"
    by (intro tokens_boundary) blast
  have "p = [] \<or> js_space (last p)" using p by (cases "p = []") auto
  then have 2: "tokens (p @ trim t @ q) = tokens p @ tokens (trim t @ q)"
    by (intro tokens_boundary) blast
  have M: "tokens (trim t) = [] \<or>
      (hd (tokens (trim t)) \<noteq> Newline \<and> last (tokens (trim t)) \<noteq> Newline)"
  proof (cases "trim t = []")
    case True
    then show ?thesis by simp
  next
    case False
    then show ?thesis
      using trim_ends[OF False] tokens_first_word[of "trim t"] tokens_last_word[of "trim t"]
      by blast
  qed
  have "strip_newlines (tokens p @ tokens (trim t) @ tokens q) = tokens (trim t)"
    using tokens_only_newlines[OF p] tokens_only_newlines[OF q] M
    by (rule strip_newlines_sandwich)
  moreover have "tokens (p @ trim t @ q) = tokens p @ tokens (trim t) @ tokens q"
    by (simp only: 1 2)
  then have "tokens t = tokens p @ tokens (trim t) @ tokens q"
    using arg_cong[OF t, of tokens] by (rule trans[rotated])
  ultimately show ?thesis by (simp only:)
qed

subsection \<open>Rendering the tokens of a tidy text gives the text back\<close>

lemma render_tokens:
  "(\<forall>c\<in>set r. js_space c \<longrightarrow> c = SP \<or> c = LF) \<Longrightarrow> successively tidy_pair r \<Longrightarrow>
   r = [] \<or> (hd r \<noteq> SP \<and> last r \<noteq> SP) \<Longrightarrow> render (tokens r) = r"
proof (induction r rule: length_induct)
  case (1 r)
  note blanks = 1(2) and tidy = 1(3) and ends = 1(4)
  have IH: "render (tokens u) = u"
    if "length u < length r" and "\<forall>c\<in>set u. js_space c \<longrightarrow> c = SP \<or> c = LF"
      and "successively tidy_pair u" and "u = [] \<or> (hd u \<noteq> SP \<and> last u \<noteq> SP)" for u
    using 1(1) that by blast
  show ?case
  proof (cases r)
    case Nil
    then show ?thesis by simp
  next
    case (Cons c cs)
    note r = Cons
    have after_lf: "render (tokens u) = u"
      if u: "r = p @ LF # u" for p u
    proof -
      have l: "length u < length r" using u by simp
      have b: "\<forall>c\<in>set u. js_space c \<longrightarrow> c = SP \<or> c = LF" using blanks u by simp
      have "successively tidy_pair (LF # u)"
        using tidy u successively_suffix[of tidy_pair p "LF # u"] by simp
      then have t: "successively tidy_pair u" and h: "u \<noteq> [] \<Longrightarrow> hd u \<noteq> SP"
        by (cases u; simp add: tidy_pair_def)+
      have "u \<noteq> [] \<Longrightarrow> last u = last r" using u by simp
      then have e: "u = [] \<or> (hd u \<noteq> SP \<and> last u \<noteq> SP)"
        using h ends Cons by auto
      show ?thesis using IH[OF l b t e] .
    qed
    show ?thesis
    proof (cases "c = LF")
      case True
      have "render (tokens cs) = cs" using after_lf[of "[]" cs] Cons True by simp
      then show ?thesis using Cons True by simp
    next
      case nlf: False
      show ?thesis
      proof (cases "js_space c")
        case True
        then have "c = SP" using blanks Cons nlf by auto
        then show ?thesis using ends Cons by simp
      next
        case False
        from word_split[OF False, of cs] obtain w d where td: "c # cs = w @ d"
          and wn: "w \<noteq> []" and ww: "\<forall>x\<in>set w. \<not> js_space x"
          and dd: "d = [] \<or> js_space (hd d)" and tk: "tokens (c # cs) = Word w # tokens d"
          and ld: "length d < length (c # cs)"
          by blast
        have rw: "r = w @ d" using Cons td by simp
        show ?thesis
        proof (cases d)
          case Nil
          have "tokens r = [Word w]" using tk r Nil by simp
          then show ?thesis using rw Nil by simp
        next
          case (Cons x d')
          have d: "d = x # d'" by (rule Cons)
          have sx: "js_space x" using dd d by simp
          have "x \<in> set r" unfolding rw d by simp
          then have x: "x = SP \<or> x = LF" using blanks sx by blast
          show ?thesis
          proof (cases "x = LF")
            case True
            have "render (tokens d') = d'" using after_lf[of w d'] rw d True by simp
            moreover have "tokens r = Word w # Newline # tokens d'"
              using tk r d True by simp
            ultimately show ?thesis using rw d True by simp
          next
            case False
            then have xs: "x = SP" using x by simp
            have xb: "js_space x \<and> x \<noteq> LF" using sx False by simp
            have dn: "d' \<noteq> []"
            proof
              assume "d' = []"
              then have "last r = SP" unfolding rw d xs by simp
              then show False using ends rw wn by auto
            qed
            then obtain y d'' where d': "d' = y # d''" by (cases d') auto
            have "successively tidy_pair (SP # y # d'')"
              using tidy successively_suffix[of tidy_pair w "SP # y # d''"]
              unfolding rw d xs d' by simp
            then have y: "y \<noteq> SP" "y \<noteq> LF" and t: "successively tidy_pair d'"
              by (simp_all add: tidy_pair_def d')
            have "y \<in> set r" unfolding rw d d' by simp
            then have ny: "\<not> js_space y" using blanks y by blast
            from word_split[OF ny, of d''] obtain w' e where
              tk': "tokens (y # d'') = Word w' # tokens e"
              by blast
            have l: "length d' < length r" unfolding rw d by simp
            have b: "\<forall>c\<in>set d'. js_space c \<longrightarrow> c = SP \<or> c = LF"
              using blanks unfolding rw d by simp
            have "last d' = last r" unfolding rw d using dn by simp
            then have e: "d' = [] \<or> (hd d' \<noteq> SP \<and> last d' \<noteq> SP)"
              using ends rw wn y d' by auto
            have i: "render (tokens d') = d'" using IH[OF l b t e] .
            have "tokens d = tokens d'" unfolding d using xb by (simp add: tokens_blank)
            then have "tokens r = Word w # Word w' # tokens e"
              using tk tk' r d' by simp
            then have "render (tokens r) = w @ SP # render (Word w' # tokens e)" by simp
            also have "Word w' # tokens e = tokens d'" using tk' d' by simp
            finally show ?thesis using i unfolding rw d xs by simp
          qed
        qed
      qed
    qed
  qed
qed

subsection \<open>The tokens of the result\<close>

lemma no_blank_before_lf:
  "plain_blanks t \<Longrightarrow> successively (\<lambda>x y. \<not> (x = SP \<and> y = LF)) t \<Longrightarrow>
   successively (\<lambda>x y. \<not> (js_space x \<and> x \<noteq> LF \<and> y = LF)) t"
proof (induction t rule: induct_list012)
  case 1
  then show ?case by simp
next
  case (2 x)
  then show ?case by simp
next
  case (3 x y zs)
  have "plain_blanks (y # zs)" using 3(3) by (simp add: plain_blanks_def)
  moreover have "successively (\<lambda>x y. \<not> (x = SP \<and> y = LF)) (y # zs)" using 3(4) by simp
  ultimately have "successively (\<lambda>x y. \<not> (js_space x \<and> x \<noteq> LF \<and> y = LF)) (y # zs)"
    by (rule 3(2))
  moreover have "\<not> (js_space x \<and> x \<noteq> LF \<and> y = LF)"
    using 3(3,4) by (auto simp: plain_blanks_def)
  ultimately show ?case by simp
qed

lemma blanks_before_lf_gone:
  assumes cr: "CR \<notin> set s"
  shows "successively (\<lambda>x y. \<not> (js_space x \<and> x \<noteq> LF \<and> y = LF))
           (strip_blanks_lf (collapse_hspace (strip_zwsp s)))"
proof -
  define t1 where "t1 = strip_zwsp s"
  define t2 where "t2 = collapse_hspace t1"
  define t3 where "t3 = strip_blanks_lf t2"
  have s1: "ZWSP \<notin> set t1" "CR \<notin> set t1"
    using cr by (auto simp: t1_def set_strip_zwsp)
  have p2: "plain_blanks t2"
    unfolding plain_blanks_def
  proof (intro ballI conjI impI)
    fix c assume c: "c \<in> set t2"
    then have m: "c \<in> set t1 \<union> {SP}" using set_collapse_hspace[of t1] by (auto simp: t2_def)
    then show "c \<noteq> ZWSP" using s1 by auto
    assume "js_space c"
    then have "hspace c \<or> c = CR \<or> c = LF" by (simp add: js_space_cases)
    moreover have "c \<noteq> CR" using m s1 by auto
    moreover have "hspace c \<Longrightarrow> c = SP"
      using c collapse_hspace_only_SP[of c t1] by (simp add: t2_def)
    ultimately show "c = SP \<or> c = LF" by blast
  qed
  have p3: "plain_blanks t3"
    using p2 set_strip_blanks_lf[of t2] by (auto intro: plain_blanks_subset simp: t3_def)
  have c3: "successively (\<lambda>x y. \<not> (x = SP \<and> y = LF)) t3"
    unfolding t3_def
    by (rule successively_mono[OF strip_blanks_lf_no_blank_lf]) auto
  show ?thesis using no_blank_before_lf[OF p3 c3] by (simp add: t3_def t2_def t1_def)
qed

lemma tokens_cleanText:
  assumes cr: "CR \<notin> set s"
  shows "tokens (cleanText s) =
         strip_newlines (squeeze_newlines (tokens (filter (\<lambda>c. c \<noteq> ZWSP) s)))"
proof (cases "s = []")
  case True
  then show ?thesis by (simp add: cleanText_def strip_newlines_def)
next
  case False
  define t3 where "t3 = strip_blanks_lf (collapse_hspace (strip_zwsp s))"
  have 3: "tokens t3 = tokens (filter (\<lambda>c. c \<noteq> ZWSP) s)"
    unfolding t3_def by (simp only: tokens_strip_blanks_lf tokens_collapse_hspace strip_zwsp_eq)
  have "successively (\<lambda>x y. \<not> (js_space x \<and> x \<noteq> LF \<and> y = LF)) t3"
    unfolding t3_def using cr by (rule blanks_before_lf_gone)
  then have 4: "tokens (collapse_lf t3) = squeeze_newlines (tokens t3)"
    by (rule tokens_collapse_lf)
  have "cleanText s = trim (trim_lines (collapse_lf t3))"
    using False by (simp add: cleanText_def t3_def)
  then show ?thesis by (simp only: tokens_trim tokens_trim_lines 4 3)
qed

lemma nl3_free_no_triple: "nl3_free r \<Longrightarrow> \<not> (\<exists>a b. r = a @ [LF, LF, LF] @ b)"
proof
  assume n: "nl3_free r" and "\<exists>a b. r = a @ [LF, LF, LF] @ b"
  then obtain a b where "r = a @ (LF # LF # LF # b)" by auto
  then have "nl3_free (LF # LF # LF # b)" using n nl3_free_append by blast
  then show False by simp
qed

lemma cleanText_layout:
  assumes cr: "CR \<notin> set s"
  shows "cleanText s = normalized_layout s"
proof -
  have nf: "normal_form (cleanText s)" using cr by (rule cleanText_normal_form)
  then have b: "\<forall>c\<in>set (cleanText s). js_space c \<longrightarrow> c = SP \<or> c = LF"
    and t: "successively tidy_pair (cleanText s)"
    and e: "cleanText s = [] \<or> (\<not> js_space (hd (cleanText s)) \<and> \<not> js_space (last (cleanText s)))"
    by (simp_all add: normal_form_def plain_blanks_def)
  have "js_space SP" by (simp add: js_space_def SP_def)
  then have e': "cleanText s = [] \<or> (hd (cleanText s) \<noteq> SP \<and> last (cleanText s) \<noteq> SP)"
    using e by auto
  have "render (tokens (cleanText s)) = cleanText s" using b t e' by (rule render_tokens)
  then show ?thesis unfolding normalized_layout_def tokens_cleanText[OF cr] by simp
qed

text \<open>
  C7, as the code has it: on a text without carriage return \<^verbatim>\<open>cleanText\<close> gives the layout
  the specification describes. The result has no zero-width space; its only whitespace
  characters are the space and the line feed; no two spaces are in a row and no space
  stands next to a line feed, so that no line begins or ends with whitespace; no three
  line feeds are in a row; and no whitespace stands at either end. The two scenarios
  evaluate as stated.
\<close>

theorem cleanText_layout_without_CR:
  assumes "CR \<notin> set s"
  shows "cleanText s = normalized_layout s \<and>
    ZWSP \<notin> set (cleanText s) \<and>
    (\<forall>c\<in>set (cleanText s). js_space c \<longrightarrow> c = SP \<or> c = LF) \<and>
    successively (\<lambda>x y. \<not> (x = SP \<and> y = SP) \<and> \<not> (x = SP \<and> y = LF) \<and> \<not> (x = LF \<and> y = SP))
      (cleanText s) \<and>
    \<not> (\<exists>a b. cleanText s = a @ [LF, LF, LF] @ b) \<and>
    (cleanText s = [] \<or> (\<not> js_space (hd (cleanText s)) \<and> \<not> js_space (last (cleanText s)))) \<and>
    cleanText [0x61, SP, SP, SP, 0x62, TAB, LF, LF, LF, LF, 0x63, SP, SP] =
      [0x61, SP, 0x62, LF, LF, 0x63] \<and>
    cleanText [0x77, 0x6F, ZWSP, 0x72, 0x64] = [0x77, 0x6F, 0x72, 0x64]"
proof -
  have nf: "normal_form (cleanText s)" using assms by (rule cleanText_normal_form)
  have 1: "cleanText s = normalized_layout s" using assms by (rule cleanText_layout)
  have 2: "ZWSP \<notin> set (cleanText s)" by (rule cleanText_no_zwsp)
  have 3: "\<forall>c\<in>set (cleanText s). js_space c \<longrightarrow> c = SP \<or> c = LF"
    using nf by (simp add: normal_form_def plain_blanks_def)
  have "successively tidy_pair (cleanText s)" using nf by (simp add: normal_form_def)
  then have 4: "successively
      (\<lambda>x y. \<not> (x = SP \<and> y = SP) \<and> \<not> (x = SP \<and> y = LF) \<and> \<not> (x = LF \<and> y = SP)) (cleanText s)"
    by (rule successively_mono) (simp_all add: tidy_pair_def)
  have "nl3_free (cleanText s)" using nf by (simp add: normal_form_def)
  then have 5: "\<not> (\<exists>a b. cleanText s = a @ [LF, LF, LF] @ b)" by (rule nl3_free_no_triple)
  have 6: "cleanText s = [] \<or> (\<not> js_space (hd (cleanText s)) \<and> \<not> js_space (last (cleanText s)))"
    using nf by (simp add: normal_form_def)
  have 7: "cleanText [0x61, SP, SP, SP, 0x62, TAB, LF, LF, LF, LF, 0x63, SP, SP] =
      [0x61, SP, 0x62, LF, LF, 0x63]"
    by code_simp
  have 8: "cleanText [0x77, 0x6F, ZWSP, 0x72, 0x64] = [0x77, 0x6F, 0x72, 0x64]"
    by code_simp
  show ?thesis using 1 2 3 4 5 6 7 8 by (intro conjI)
qed

theorem cleanText_layout_without_CR_witness:
  "CR \<notin> set [SP, 0x61, TAB, TAB, 0x62, ZWSP, 0x63, SP, LF, SP, LF, LF, LF, 0x64, LF] \<and>
   cleanText [SP, 0x61, TAB, TAB, 0x62, ZWSP, 0x63, SP, LF, SP, LF, LF, LF, 0x64, LF] =
     normalized_layout [SP, 0x61, TAB, TAB, 0x62, ZWSP, 0x63, SP, LF, SP, LF, LF, LF, 0x64, LF] \<and>
   normalized_layout [SP, 0x61, TAB, TAB, 0x62, ZWSP, 0x63, SP, LF, SP, LF, LF, LF, 0x64, LF] =
     [0x61, SP, 0x62, 0x63, LF, LF, 0x64]"
proof -
  have h: "CR \<notin> set [SP, 0x61, TAB, TAB, 0x62, ZWSP, 0x63, SP, LF, SP, LF, LF, LF, 0x64, LF]"
    by (simp add: CR_def SP_def TAB_def LF_def ZWSP_def)
  have n: "normalized_layout [SP, 0x61, TAB, TAB, 0x62, ZWSP, 0x63, SP, LF, SP, LF, LF, LF, 0x64, LF] =
     [0x61, SP, 0x62, 0x63, LF, LF, 0x64]"
    by code_simp
  from h n cleanText_layout_without_CR[OF h] show ?thesis by blast
qed

text \<open>
  C7 as stated, for every input string, fails on carriage returns. In
  \<^verbatim>\<open>"a\r\n\r\n\r\nb"\<close> the line feeds are not in a row before the lines are trimmed, and the
  result has three in a row. In \<^verbatim>\<open>"a\r\r\rb"\<close> nothing changes: the run of carriage returns
  is neither collapsed to one space nor, read as line breaks, to two.
\<close>

theorem cleanText_CR_counterexample:
  "cleanText [0x61, CR, LF, CR, LF, CR, LF, 0x62] = [0x61, LF, LF, LF, 0x62] \<and>
   normalized_layout [0x61, CR, LF, CR, LF, CR, LF, 0x62] = [0x61, LF, LF, 0x62] \<and>
   cleanText [0x61, CR, CR, CR, 0x62] = [0x61, CR, CR, CR, 0x62] \<and>
   normalized_layout [0x61, CR, CR, CR, 0x62] = [0x61, SP, 0x62]"
  by code_simp

end
